theory Spec2Isabelle
  imports Main "HOL-Library.Multiset"
begin

section \<open>Data model of \<open>src/components/TodoApp.tsx\<close>\<close>

text \<open>
  A JavaScript string is modelled as the list of its UTF-16 code units (natural numbers).
  The names of keyboard keys, which the source only compares with ASCII literals, are
  ordinary strings.
\<close>

type_synonym jsstring = "nat list"

datatype priority = Emergency | Urgent | Normal | Low

text \<open>
  \<open>interface Todo\<close>. The fields \<open>id\<close> and \<open>text\<close> carry a prefix because
  both names are taken in Isabelle. The optional field \<open>children\<close> is never written
  or read by the component and is left out. \<open>depth\<close> is a JavaScript number; every
  item gets its depth from \<open>inputDepth\<close>, which starts at 0 and only moves through
  \<open>Math.max(0, _)\<close> and \<open>Math.min(2, _)\<close>, so a natural number holds it.
\<close>

record todo =
  todo_id :: jsstring
  todo_text :: jsstring
  completed :: bool
  depth :: nat
  priority :: priority

text \<open>
  The view state of the component: the \<open>useState\<close> cells of the store and of the
  draft. \<open>currentDate\<close> is only displayed and is left out.
\<close>

record state =
  todos :: "todo list"
  inputValue :: jsstring
  inputDepth :: nat
  inputPriority :: priority

text \<open>The part of a \<open>KeyboardEvent\<close> that \<open>handleKeyDown\<close> reads.\<close>

record event =
  key :: string
  shiftKey :: bool
  isComposing :: bool

text \<open>Reading a property of \<open>undefined\<close> raises a \<open>TypeError\<close>.\<close>

datatype error = TypeError

section \<open>Library functions of the language\<close>

text \<open>
  \<open>String.prototype.trim\<close> removes white space and line terminators (ECMAScript
  \<open>WhiteSpace\<close> and \<open>LineTerminator\<close>) from both ends.
\<close>

definition isWhiteSpace :: "nat \<Rightarrow> bool" where
  "isWhiteSpace c \<longleftrightarrow>
     c \<in> {0x9, 0xA, 0xB, 0xC, 0xD, 0x20, 0xA0, 0x1680, 0x2028, 0x2029, 0x202F, 0x205F,
          0x3000, 0xFEFF} \<or> (0x2000 \<le> c \<and> c \<le> 0x200A)"

definition trim :: "jsstring \<Rightarrow> jsstring" where
  "trim s = rev (dropWhile isWhiteSpace (rev (dropWhile isWhiteSpace s)))"

text \<open>
  \<open>Number.prototype.toString\<close> on an integer (\<open>Date.now()\<close> is a whole number
  of milliseconds, far below \<open>1e21\<close>, so the decimal form has no exponent).
\<close>

fun natDigits :: "nat \<Rightarrow> jsstring" where
  "natDigits n = (if n < 10 then [48 + n] else natDigits (n div 10) @ [48 + n mod 10])"

declare natDigits.simps [simp del]

definition numberToString :: "int \<Rightarrow> jsstring" where
  "numberToString n = (if n < 0 then 45 # natDigits (nat (- n)) else natDigits (nat n))"

text \<open>\<open>Array.prototype.findIndex\<close>: the first index whose element passes, or \<open>-1\<close>.\<close>

fun findIndexFrom :: "('a \<Rightarrow> bool) \<Rightarrow> 'a list \<Rightarrow> nat \<Rightarrow> int" where
  "findIndexFrom P [] k = - 1"
| "findIndexFrom P (x # xs) k = (if P x then int k else findIndexFrom P xs (Suc k))"

definition findIndex :: "('a \<Rightarrow> bool) \<Rightarrow> 'a list \<Rightarrow> int" where
  "findIndex P xs = findIndexFrom P xs 0"

text \<open>\<open>Array.prototype.indexOf\<close>: the first index of the element, or \<open>-1\<close>.\<close>

definition indexOf :: "'a list \<Rightarrow> 'a \<Rightarrow> int" where
  "indexOf xs x = findIndex (\<lambda>y. y = x) xs"

text \<open>
  \<open>Array.prototype.sort\<close> with a comparator. ECMAScript requires the sort to be
  stable and, for a comparator that is not a consistent order, leaves the resulting order
  to the engine. \<open>compareTodos\<close> below is not one on stores of mixed depth, so the
  model follows an engine: V8 (\<open>third_party/v8/builtins/array-sort.tq\<close>), as it runs on
  an array of fewer than 64 elements. There \<open>ComputeMinRunLength\<close> is the length of
  the array, so \<open>ArrayTimSortImpl\<close> finds the first natural run
  (\<open>CountAndMakeRun\<close>) and puts every later element in by \<open>BinaryInsertionSort\<close>.
  From 64 elements on the engine cuts the array into several such runs and merges them;
  the model keeps to the one run there.

  \<open>runLength\<close> is the loop of \<open>CountAndMakeRun\<close> from the third element on: the
  run goes on while \<open>order \<ge> 0\<close> (ascending) or \<open>order < 0\<close> (strictly
  descending), \<open>order\<close> being the comparison of the current with the previous
  element. A descending run is reversed in place.
\<close>

fun runLength :: "bool \<Rightarrow> ('a \<Rightarrow> 'a \<Rightarrow> int) \<Rightarrow> 'a \<Rightarrow> 'a list \<Rightarrow> nat" where
  "runLength isDescending cmp previousElement [] = 0"
| "runLength isDescending cmp previousElement (currentElement # rest) =
     (let order = cmp currentElement previousElement in
      if (if isDescending then order \<ge> 0 else order < 0) then 0
      else Suc (runLength isDescending cmp currentElement rest))"

definition countAndMakeRun :: "('a \<Rightarrow> 'a \<Rightarrow> int) \<Rightarrow> 'a list \<Rightarrow> 'a list \<times> nat" where
  "countAndMakeRun cmp workArray =
     (case workArray of
        elementHigh # elementLow # rest \<Rightarrow>
          (let isDescending = cmp elementLow elementHigh < 0;
               n = 2 + runLength isDescending cmp elementLow rest
           in (if isDescending then rev (take n workArray) @ drop n workArray else workArray, n))
      | _ \<Rightarrow> (workArray, length workArray))"

text \<open>
  The binary search of \<open>BinaryInsertionSort\<close> for the place of \<open>pivot\<close> in the
  sorted part: \<open>right = mid\<close> when the pivot compares less than the middle element,
  \<open>left = mid + 1\<close> otherwise.
\<close>

function binarySearch :: "('a \<Rightarrow> 'a \<Rightarrow> int) \<Rightarrow> 'a \<Rightarrow> 'a list \<Rightarrow> nat \<Rightarrow> nat \<Rightarrow> nat" where
  "binarySearch cmp pivot workArray left right =
     (if left < right then
        (let mid = left + (right - left) div 2;
             order = cmp pivot (workArray ! mid)
         in if order < 0 then binarySearch cmp pivot workArray left mid
            else binarySearch cmp pivot workArray (mid + 1) right)
      else left)"
  by pat_completeness auto
termination
  by (relation "measure (\<lambda>(cmp, pivot, workArray, left, right). right - left)") auto

declare binarySearch.simps [simp del]

text \<open>
  \<open>BinaryInsertionSort\<close>: the array is the sorted part followed by the elements still
  to be put in; each pivot is moved to the place the search gives, the elements from
  there on shifted one up.
\<close>

fun binaryInsertionSort :: "('a \<Rightarrow> 'a \<Rightarrow> int) \<Rightarrow> 'a list \<Rightarrow> 'a list \<Rightarrow> 'a list" where
  "binaryInsertionSort cmp sortedPart [] = sortedPart"
| "binaryInsertionSort cmp sortedPart (pivot # rest) =
     (let left = binarySearch cmp pivot sortedPart 0 (length sortedPart)
      in binaryInsertionSort cmp (take left sortedPart @ pivot # drop left sortedPart) rest)"

definition arraySort :: "('a \<Rightarrow> 'a \<Rightarrow> int) \<Rightarrow> 'a list \<Rightarrow> 'a list" where
  "arraySort cmp xs =
     (if length xs < 2 then xs
      else (case countAndMakeRun cmp xs of
              (workArray, n) \<Rightarrow> binaryInsertionSort cmp (take n workArray) (drop n workArray)))"

section \<open>Completion propagation\<close>

text \<open>
  \<open>getDirectChildren\<close> (lines 131-146): the loop from \<open>parentIndex + 1\<close>, with the
  array \<open>children\<close> as accumulator.
\<close>

function gdc_loop :: "todo list \<Rightarrow> todo \<Rightarrow> nat \<Rightarrow> todo list \<Rightarrow> todo list" where
  "gdc_loop todoList parentTodo i children =
     (if i < length todoList then
        (if depth (todoList ! i) \<le> depth parentTodo then children
         else if depth (todoList ! i) = depth parentTodo + 1
           then gdc_loop todoList parentTodo (i + 1) (children @ [todoList ! i])
           else gdc_loop todoList parentTodo (i + 1) children)
      else children)"
  by pat_completeness auto
termination
  by (relation "measure (\<lambda>(todoList, parentTodo, i, children). length todoList - i)") auto

declare gdc_loop.simps [simp del]

definition getDirectChildren :: "todo list \<Rightarrow> nat \<Rightarrow> todo list" where
  "getDirectChildren todoList parentIndex =
     gdc_loop todoList (todoList ! parentIndex) (parentIndex + 1) []"

text \<open>
  \<open>updateChildrenCompletion\<close> (lines 94-109). \<open>ucc_loop\<close> is its \<open>for\<close> loop at
  index \<open>i\<close>, with \<open>parentTodo\<close> read once before the loop; the array is updated in
  place, so the list is threaded through the recursive call and on to the next round.
\<close>

function ucc_loop :: "todo list \<Rightarrow> todo \<Rightarrow> nat \<Rightarrow> bool \<Rightarrow> todo list" where
  "ucc_loop todoList parentTodo i c =
     (if i < length todoList then
        (if depth (todoList ! i) \<le> depth parentTodo then todoList
         else if depth (todoList ! i) = depth parentTodo + 1
           then (let todoList' = todoList[i := (todoList ! i)\<lparr>completed := c\<rparr>]
                 in ucc_loop
                      (if c then ucc_loop todoList' (todoList' ! i) (i + 1) c else todoList')
                      parentTodo (i + 1) c)
           else ucc_loop todoList parentTodo (i + 1) c)
      else todoList)"
  by pat_completeness auto

lemma ucc_loop_length_dom:
  "ucc_loop_dom (l, p, i, c) \<Longrightarrow> length (ucc_loop l p i c) = length l"
  by (induction l p i c rule: ucc_loop.pinduct)
     (auto simp: ucc_loop.psimps Let_def split: if_splits)

termination ucc_loop
  by (relation "measure (\<lambda>(todoList, parentTodo, i, c). length todoList - i)")
     (auto simp: ucc_loop_length_dom)

declare ucc_loop.simps [simp del]

definition updateChildrenCompletion :: "todo list \<Rightarrow> nat \<Rightarrow> bool \<Rightarrow> todo list" where
  "updateChildrenCompletion todoList parentIndex c =
     ucc_loop todoList (todoList ! parentIndex) (parentIndex + 1) c"

text \<open>
  \<open>updateParentCompletion\<close> (lines 111-129). \<open>upc_step\<close> is the body of the loop
  at index \<open>i\<close>; \<open>upc_loop todoList n\<close> runs it for \<open>i = n - 1\<close> down to \<open>0\<close>.
\<close>

definition upc_step :: "todo list \<Rightarrow> nat \<Rightarrow> todo list" where
  "upc_step todoList i =
     (let t = todoList ! i in
      if depth t < 2 then
        (let children = getDirectChildren todoList i in
         if length children > 0 then
           (let allChildrenCompleted = list_all completed children;
                anyChildUncompleted = list_ex (\<lambda>child. \<not> completed child) children
            in if allChildrenCompleted \<and> \<not> completed t
                 then todoList[i := t\<lparr>completed := True\<rparr>]
               else if anyChildUncompleted \<and> completed t
                 then todoList[i := t\<lparr>completed := False\<rparr>]
               else todoList)
         else todoList)
      else todoList)"

fun upc_loop :: "todo list \<Rightarrow> nat \<Rightarrow> todo list" where
  "upc_loop todoList 0 = todoList"
| "upc_loop todoList (Suc i) = upc_loop (upc_step todoList i) i"

definition updateParentCompletion :: "todo list \<Rightarrow> todo list" where
  "updateParentCompletion todoList = upc_loop todoList (length todoList)"

text \<open>
  \<open>toggleTodo\<close> (lines 79-92). \<open>toggleDownward\<close> is lines 84-88: the flip of the
  clicked item and, when the new value is true, the cascade to its children. When no item
  has the id, \<open>findIndex\<close> gives \<open>-1\<close>, \<open>updated[-1]\<close> is \<open>undefined\<close>, and reading
  \<open>clickedTodo.completed\<close> raises a \<open>TypeError\<close> before \<open>setTodos\<close> is reached.
  The result \<open>Inr updated\<close> is the list handed to \<open>setTodos\<close>.
\<close>

definition toggleDownward :: "todo list \<Rightarrow> nat \<Rightarrow> todo list" where
  "toggleDownward updated todoIndex =
     (let clickedTodo = updated ! todoIndex;
          updated' = updated[todoIndex := clickedTodo\<lparr>completed := \<not> completed clickedTodo\<rparr>]
      in if completed (updated' ! todoIndex)
           then updateChildrenCompletion updated' todoIndex True
           else updated')"

definition toggleTodo :: "todo list \<Rightarrow> jsstring \<Rightarrow> error + todo list" where
  "toggleTodo todoList ident =
     (let todoIndex = findIndex (\<lambda>t. todo_id t = ident) todoList in
      if todoIndex < 0 then Inl TypeError
      else Inr (updateParentCompletion (toggleDownward todoList (nat todoIndex))))"

section \<open>Display ordering\<close>

text \<open>\<open>sortedTodos\<close> (lines 188-193), the spec's \<open>orderForDisplay\<close>.\<close>

fun priorityOrder :: "priority \<Rightarrow> int" where
  "priorityOrder Emergency = 0"
| "priorityOrder Urgent = 1"
| "priorityOrder Normal = 2"
| "priorityOrder Low = 3"

definition compareTodos :: "todo \<Rightarrow> todo \<Rightarrow> int" where
  "compareTodos a b =
     (if depth a \<noteq> depth b then 0
      else priorityOrder (priority a) - priorityOrder (priority b))"

definition sortedTodos :: "todo list \<Rightarrow> todo list" where
  "sortedTodos todoList = arraySort compareTodos todoList"

section \<open>Input controller\<close>

text \<open>
  \<open>addTodo\<close> (lines 63-77). \<open>now\<close> is the value \<open>Date.now()\<close> returns at the call.
\<close>

definition addTodo :: "state \<Rightarrow> int \<Rightarrow> state" where
  "addTodo s now =
     (if trim (inputValue s) = [] then s
      else
        (let newTodo = \<lparr>todo_id = numberToString now, todo_text = trim (inputValue s),
                         completed = False, depth = inputDepth s,
                         priority = inputPriority s\<rparr>
         in s\<lparr>todos := todos s @ [newTodo], inputValue := [], inputPriority := Normal\<rparr>))"

text \<open>\<open>handleKeyDown\<close> (lines 36-61).\<close>

definition priorities :: "priority list" where
  "priorities = [Low, Normal, Urgent, Emergency]"

definition handleKeyDown :: "state \<Rightarrow> event \<Rightarrow> int \<Rightarrow> state" where
  "handleKeyDown s e now =
     (if key e = ''Tab'' then
        (if shiftKey e then s\<lparr>inputDepth := max 0 (inputDepth s - 1)\<rparr>
         else s\<lparr>inputDepth := min 2 (inputDepth s + 1)\<rparr>)
      else if key e = ''ArrowUp'' then
        (let currentIndex = indexOf priorities (inputPriority s);
             nextIndex = (currentIndex + 1) mod int (length priorities)
         in s\<lparr>inputPriority := priorities ! nat nextIndex\<rparr>)
      else if key e = ''ArrowDown'' then
        (let currentIndex = indexOf priorities (inputPriority s);
             prevIndex = (if currentIndex = 0 then int (length priorities) - 1
                          else currentIndex - 1)
         in s\<lparr>inputPriority := priorities ! nat prevIndex\<rparr>)
      else if key e = ''Backspace'' \<and> inputValue s = [] \<and> inputDepth s > 0 then
        s\<lparr>inputDepth := inputDepth s - 1\<rparr>
      else if key e = ''Enter'' \<and> trim (inputValue s) \<noteq> [] \<and> \<not> isComposing e then
        addTodo s now
      else s)"

text \<open>
  The events that change the view state: a key pressed in the text field (with the clock
  reading at that moment), an edit of the text field (\<open>onChange\<close>, line 299) and a click
  on an item's checkbox (line 268). An exception in a handler leaves the state as it was.
\<close>

datatype action = KeyDown event int | Change jsstring | Toggle jsstring

fun step :: "state \<Rightarrow> action \<Rightarrow> state" where
  "step s (KeyDown e now) = handleKeyDown s e now"
| "step s (Change v) = s\<lparr>inputValue := v\<rparr>"
| "step s (Toggle ident) =
     (case toggleTodo (todos s) ident of Inl err \<Rightarrow> s | Inr updated \<Rightarrow> s\<lparr>todos := updated\<rparr>)"

definition run :: "state \<Rightarrow> action list \<Rightarrow> state" where
  "run s acts = foldl step s acts"

section \<open>Vocabulary of the properties\<close>

text \<open>An item with its \<open>completed\<close> flag blanked: two items agree on it exactly when they agree on every field but \<open>completed\<close>.\<close>

definition erase :: "todo \<Rightarrow> todo" where
  "erase t = t\<lparr>completed := False\<rparr>"

text \<open>The direct children among the items that follow a parent of depth \<open>pd\<close>, by recursion on the list; \<open>getDirectChildren\<close> is shown to compute it.\<close>

fun childrenOf :: "nat \<Rightarrow> todo list \<Rightarrow> todo list" where
  "childrenOf pd [] = []"
| "childrenOf pd (t # ts) =
     (if depth t \<le> pd then [] else if depth t = pd + 1 then t # childrenOf pd ts
      else childrenOf pd ts)"

text \<open>Example data for the closed instances below.\<close>

definition item :: "nat \<Rightarrow> bool \<Rightarrow> nat \<Rightarrow> priority \<Rightarrow> todo" where
  "item n c d p = \<lparr>todo_id = [n], todo_text = [65], completed = c, depth = d, priority = p\<rparr>"

definition familyStore :: "todo list" where
  "familyStore = [item 1 False 0 Normal, item 2 False 1 Normal, item 3 False 1 Normal]"

definition enterKey :: event where
  "enterKey = \<lparr>key = ''Enter'', shiftKey = False, isComposing = False\<rparr>"

definition draftState :: state where
  "draftState = \<lparr>todos = familyStore, inputValue = [32, 104, 105, 32], inputDepth = 2,
                  inputPriority = Urgent\<rparr>"

definition blankState :: state where
  "blankState = \<lparr>todos = familyStore, inputValue = [32, 9], inputDepth = 2,
                  inputPriority = Urgent\<rparr>"

text \<open>Items that share a depth come out in ascending priority rank.\<close>

definition sameDepthAscending :: "todo list \<Rightarrow> bool" where
  "sameDepthAscending out \<longleftrightarrow>
     (\<forall>j<length out. \<forall>i<j. depth (out ! i) = depth (out ! j) \<longrightarrow>
        priorityOrder (priority (out ! i)) \<le> priorityOrder (priority (out ! j)))"

definition crossedStore :: "todo list" where
  "crossedStore = [item 1 False 0 Low, item 2 False 1 Normal, item 3 False 0 Emergency]"

text \<open>Any two items of differing depth stand in the output in the order they have in the input: of the items equal to one or the other, both lists hold the same sequence.\<close>

definition crossDepthOrderKept :: "todo list \<Rightarrow> todo list \<Rightarrow> bool" where
  "crossDepthOrderKept inp out \<longleftrightarrow>
     (\<forall>a\<in>set inp. \<forall>b\<in>set inp. depth a \<noteq> depth b \<longrightarrow>
        filter (\<lambda>t. t = a \<or> t = b) out = filter (\<lambda>t. t = a \<or> t = b) inp)"

text \<open>The stores on which both requirements can be met at once: between two items of one depth that stand out of rank order, the later one ranked strictly before the earlier, there are only items of that depth.\<close>

definition sortableStore :: "todo list \<Rightarrow> bool" where
  "sortableStore todoList \<longleftrightarrow>
     (\<forall>j<length todoList. \<forall>i<j.
        depth (todoList ! i) = depth (todoList ! j) \<and>
        priorityOrder (priority (todoList ! j)) < priorityOrder (priority (todoList ! i)) \<longrightarrow>
        (\<forall>m\<in>{i<..<j}. depth (todoList ! m) = depth (todoList ! i)))"

text \<open>A parent with two children out of rank order.\<close>

definition rankedFamilyStore :: "todo list" where
  "rankedFamilyStore = [item 1 False 0 Normal, item 2 False 1 Low, item 3 False 1 Emergency]"

text \<open>For the proofs about the order, every item carries its index in the store as a tag. \<open>tagCompare\<close> is the comparator on tagged items. \<open>placedBefore\<close> is the order the view gives them: within a depth by rank and then by index, across depths by index. \<open>sortableTagged\<close> is \<open>sortableStore\<close> on a set of tagged items.\<close>

definition priorityRank :: "todo \<Rightarrow> int" where
  "priorityRank t = priorityOrder (priority t)"

definition tagCompare :: "nat \<times> todo \<Rightarrow> nat \<times> todo \<Rightarrow> int" where
  "tagCompare x y = compareTodos (snd x) (snd y)"

definition placedBefore :: "nat \<times> todo \<Rightarrow> nat \<times> todo \<Rightarrow> bool" where
  "placedBefore x y \<longleftrightarrow>
     (if depth (snd x) = depth (snd y)
      then priorityRank (snd x) < priorityRank (snd y) \<or>
           (priorityRank (snd x) = priorityRank (snd y) \<and> fst x < fst y)
      else fst x < fst y)"

definition sortableTagged :: "(nat \<times> todo) set \<Rightarrow> bool" where
  "sortableTagged S \<longleftrightarrow>
     (\<forall>x\<in>S. \<forall>y\<in>S. fst x < fst y \<and> depth (snd x) = depth (snd y) \<and>
         priorityRank (snd y) < priorityRank (snd x) \<longrightarrow>
         (\<forall>z\<in>S. fst x < fst z \<and> fst z < fst y \<longrightarrow> depth (snd z) = depth (snd x)))"

text \<open>Index \<open>k\<close> is a direct child of index \<open>p\<close> in a list of depths: it comes later, is exactly one level deeper, and everything in between is deeper than \<open>p\<close>.\<close>

definition isChildIdx :: "nat list \<Rightarrow> nat \<Rightarrow> nat \<Rightarrow> bool" where
  "isChildIdx ds p k \<longleftrightarrow>
     p < k \<and> k < length ds \<and> ds ! k = ds ! p + 1 \<and> (\<forall>m\<in>{p<..<k}. ds ! p < ds ! m)"

text \<open>The indices a downward cascade covers when its loop starts at index \<open>i\<close> under a parent of depth \<open>pd\<close>: the direct children found from \<open>i\<close> on, and the direct children of covered indices.\<close>

inductive cov :: "nat list \<Rightarrow> nat \<Rightarrow> nat \<Rightarrow> nat \<Rightarrow> bool" for ds :: "nat list" where
  first: "i \<le> k \<Longrightarrow> k < length ds \<Longrightarrow> ds ! k = pd + 1 \<Longrightarrow> \<forall>m\<in>{i..<k}. pd < ds ! m
          \<Longrightarrow> cov ds pd i k"
| deeper: "cov ds pd i k \<Longrightarrow> isChildIdx ds k j \<Longrightarrow> cov ds pd i j"

code_pred cov .

text \<open>Index \<open>j\<close> hangs on index \<open>p\<close> through a chain of direct children.\<close>

definition chained :: "nat list \<Rightarrow> nat \<Rightarrow> nat \<Rightarrow> bool" where
  "chained ds p j \<longleftrightarrow> cov ds (ds ! p) (Suc p) j"

text \<open>Index \<open>j\<close> lies in the descendant run of index \<open>i\<close>: the maximal stretch after \<open>i\<close> of items strictly deeper than \<open>i\<close>.\<close>

definition inRun :: "nat list \<Rightarrow> nat \<Rightarrow> nat \<Rightarrow> bool" where
  "inRun ds i j \<longleftrightarrow> i < j \<and> j < length ds \<and> (\<forall>k\<in>{i<..j}. ds ! i < ds ! k)"

text \<open>Between \<open>i\<close> and \<open>j\<close> no item is more than one level deeper than the item just before it.\<close>

definition noDepthJump :: "nat list \<Rightarrow> nat \<Rightarrow> nat \<Rightarrow> bool" where
  "noDepthJump ds i j \<longleftrightarrow> (\<forall>k\<in>{i<..j}. ds ! k \<le> ds ! (k - 1) + 1)"

text \<open>Two different indices of the same depth with no shallower item between them: they share the parent.\<close>

definition isSibling :: "nat list \<Rightarrow> nat \<Rightarrow> nat \<Rightarrow> bool" where
  "isSibling ds s t \<longleftrightarrow>
     s < length ds \<and> t < length ds \<and> s \<noteq> t \<and> ds ! s = ds ! t \<and>
     (\<forall>m\<in>{min s t<..<max s t}. ds ! t \<le> ds ! m)"

text \<open>Every item in the descendant run of index \<open>s\<close> is completed.\<close>

definition runCompleted :: "todo list \<Rightarrow> nat \<Rightarrow> bool" where
  "runCompleted l s \<longleftrightarrow>
     (\<forall>j\<in>{s<..<length l}. inRun (map depth l) s j \<longrightarrow> completed (l ! j))"

definition lateChildStore :: "todo list" where
  "lateChildStore = [item 49 True 0 Normal, item 50 True 1 Normal, item 51 True 1 Normal,
                     item 52 False 2 Normal]"

definition doneStore :: "todo list" where
  "doneStore = [item 1 True 0 Normal, item 2 True 1 Normal, item 3 True 1 Normal,
                item 4 True 2 Normal]"

text \<open>The initial view state of the component.\<close>

definition emptyState :: state where
  "emptyState = \<lparr>todos = [], inputValue = [], inputDepth = 0, inputPriority = Normal\<rparr>"

definition tabKey :: event where
  "tabKey = \<lparr>key = ''Tab'', shiftKey = False, isComposing = False\<rparr>"

definition orphanStore :: "todo list" where
  "orphanStore = [item 49 False 0 Normal, item 50 False 2 Normal]"

definition nestedStore :: "todo list" where
  "nestedStore = [item 1 False 0 Normal, item 2 False 1 Normal, item 3 False 2 Normal,
                  item 4 False 1 Normal, item 5 False 0 Normal]"

text \<open>The condition under which a key press creates an item (line 58).\<close>

definition commits :: "state \<Rightarrow> event \<Rightarrow> bool" where
  "commits s e \<longleftrightarrow> key e = ''Enter'' \<and> trim (inputValue s) \<noteq> [] \<and> \<not> isComposing e"

text \<open>The clock readings at the item creations of a sequence of events.\<close>

fun creationTimes :: "state \<Rightarrow> action list \<Rightarrow> int list" where
  "creationTimes s [] = []"
| "creationTimes s (a # acts) =
     (case a of KeyDown e now \<Rightarrow> (if commits s e then [now] else []) | _ \<Rightarrow> [])
     @ creationTimes (step s a) acts"

text \<open>Two items typed and committed while \<open>Date.now()\<close> returns the same reading.\<close>

definition sameClockActs :: "action list" where
  "sameClockActs = [Change [65], KeyDown enterKey 1700, Change [66], KeyDown enterKey 1700]"

definition twinStore :: "todo list" where
  "twinStore =
     [\<lparr>todo_id = [49, 55, 48, 48], todo_text = [65], completed = False, depth = 0,
        priority = Normal\<rparr>,
      \<lparr>todo_id = [49, 55, 48, 48], todo_text = [66], completed = False, depth = 0,
        priority = Normal\<rparr>]"

section \<open>Verification\<close>

subsection \<open>What a toggle leaves alone\<close>

lemma erase_upd [simp]: "erase (t\<lparr>completed := c\<rparr>) = erase t"
  by (simp add: erase_def)

lemma erase_fields:
  "erase a = erase b \<Longrightarrow>
     todo_id a = todo_id b \<and> todo_text a = todo_text b \<and> depth a = depth b \<and> priority a = priority b"
  by (cases a, cases b) (simp add: erase_def)

lemma map_erase_update:
  "i < length l \<Longrightarrow> map erase (l[i := (l ! i)\<lparr>completed := c\<rparr>]) = map erase l"
  by (simp add: map_update list_update_same_conv)

lemma ucc_loop_length [simp]: "length (ucc_loop l p i c) = length l"
  by (induction l p i c rule: ucc_loop.induct)
     (subst ucc_loop.simps, auto simp: Let_def)

lemma ucc_loop_erase: "map erase (ucc_loop l p i c) = map erase l"
proof (induction l p i c rule: ucc_loop.induct)
  case (1 l p i c)
  show ?case
    apply (subst ucc_loop.simps)
    using 1 by (auto simp: Let_def map_erase_update)
qed

lemma ucc_loop_below: "j < i \<Longrightarrow> ucc_loop l p i c ! j = l ! j"
proof (induction l p i c rule: ucc_loop.induct)
  case (1 l p i c)
  show ?case
    apply (subst ucc_loop.simps)
    using 1 by (auto simp: Let_def)
qed

lemma ucc_loop_mono:
  "j < length l \<Longrightarrow> completed (l ! j) \<Longrightarrow> completed (ucc_loop l p i True ! j)"
proof (induction l p i "True" arbitrary: rule: ucc_loop.induct)
  case (1 l p i)
  show ?case
    apply (subst ucc_loop.simps)
    using 1 by (auto simp: Let_def nth_list_update)
qed

lemma upc_step_length [simp]: "length (upc_step l i) = length l"
  by (simp add: upc_step_def Let_def)

lemma upc_step_erase: "i < length l \<Longrightarrow> map erase (upc_step l i) = map erase l"
  by (simp add: upc_step_def Let_def map_erase_update)

lemma upc_loop_erase: "n \<le> length l \<Longrightarrow> map erase (upc_loop l n) = map erase l"
  by (induction n arbitrary: l) (simp_all add: upc_step_erase)

lemma updateParentCompletion_erase: "map erase (updateParentCompletion l) = map erase l"
  by (simp add: updateParentCompletion_def upc_loop_erase)

lemma toggleDownward_erase: "i < length l \<Longrightarrow> map erase (toggleDownward l i) = map erase l"
  by (simp add: toggleDownward_def Let_def updateChildrenCompletion_def ucc_loop_erase
      map_erase_update)

lemma findIndexFrom_none: "(findIndexFrom P xs k = - 1) = (\<forall>x\<in>set xs. \<not> P x)"
  by (induction xs arbitrary: k) simp_all

lemma findIndexFrom_some:
  "\<exists>x\<in>set xs. P x \<Longrightarrow>
     \<exists>j<length xs. findIndexFrom P xs k = int (k + j) \<and> P (xs ! j) \<and> (\<forall>m<j. \<not> P (xs ! m))"
proof (induction xs arbitrary: k)
  case Nil
  then show ?case by simp
next
  case (Cons x xs)
  show ?case
  proof (cases "P x")
    case True
    then have "0 < length (x # xs) \<and> findIndexFrom P (x # xs) k = int (k + 0) \<and>
        P ((x # xs) ! 0) \<and> (\<forall>m<0. \<not> P ((x # xs) ! m))" by simp
    then show ?thesis by blast
  next
    case False
    with Cons.prems have "\<exists>x\<in>set xs. P x" by simp
    from Cons.IH [OF this, of "Suc k"] obtain j where j: "j < length xs"
      "findIndexFrom P xs (Suc k) = int (Suc k + j)" "P (xs ! j)" "\<forall>m<j. \<not> P (xs ! m)"
      by blast
    have "\<forall>m<Suc j. \<not> P ((x # xs) ! m)"
    proof (intro allI impI)
      fix m assume "m < Suc j"
      then show "\<not> P ((x # xs) ! m)" using False j(4) by (cases m) simp_all
    qed
    with j False have "Suc j < length (x # xs) \<and> findIndexFrom P (x # xs) k = int (k + Suc j) \<and>
        P ((x # xs) ! Suc j) \<and> (\<forall>m<Suc j. \<not> P ((x # xs) ! m))" by simp
    then show ?thesis by blast
  qed
qed

lemma findIndex_absent: "(findIndex P xs < 0) = (\<forall>x\<in>set xs. \<not> P x)"
proof (cases "\<exists>x\<in>set xs. P x")
  case True
  from findIndexFrom_some [OF this, of 0] show ?thesis using True by (auto simp: findIndex_def)
next
  case False
  then have "findIndexFrom P xs 0 = - 1" by (simp add: findIndexFrom_none)
  with False show ?thesis by (simp add: findIndex_def)
qed

lemma findIndex_present:
  assumes "\<not> findIndex P xs < 0"
  shows "nat (findIndex P xs) < length xs \<and> P (xs ! nat (findIndex P xs)) \<and>
         (\<forall>m<nat (findIndex P xs). \<not> P (xs ! m))"
proof -
  from assms have "\<exists>x\<in>set xs. P x" by (simp add: findIndex_absent)
  from findIndexFrom_some [OF this, of 0] obtain j where j: "j < length xs"
      "findIndexFrom P xs 0 = int (0 + j)" "P (xs ! j)" "\<forall>m<j. \<not> P (xs ! m)"
    by blast
  then have "nat (findIndex P xs) = j" by (simp add: findIndex_def)
  with j show ?thesis by simp
qed

lemma toggleTodo_erase:
  assumes "toggleTodo l ident = Inr u"
  shows "map erase u = map erase l"
proof -
  let ?k = "findIndex (\<lambda>t. todo_id t = ident) l"
  from assms have nn: "\<not> ?k < 0" by (auto simp: toggleTodo_def Let_def split: if_splits)
  then have lt: "nat ?k < length l" using findIndex_present by blast
  from assms nn have "u = updateParentCompletion (toggleDownward l (nat ?k))"
    by (auto simp: toggleTodo_def Let_def)
  then show ?thesis by (simp add: updateParentCompletion_erase toggleDownward_erase lt)
qed

text \<open>Claim C10. A toggle of an id that is present returns a list of the same length in which every item keeps its id, text, depth and priority: only \<open>completed\<close> flags change.\<close>

theorem toggle_frame:
  assumes "toggleTodo todoList ident = Inr updated"
  shows "length updated = length todoList \<and>
     (\<forall>k<length todoList.
        todo_id (updated ! k) = todo_id (todoList ! k) \<and>
        todo_text (updated ! k) = todo_text (todoList ! k) \<and>
        depth (updated ! k) = depth (todoList ! k) \<and>
        priority (updated ! k) = priority (todoList ! k))"
proof -
  have e: "map erase updated = map erase todoList" by (rule toggleTodo_erase [OF assms])
  then have len: "length updated = length todoList" by (rule map_eq_imp_length_eq)
  have "erase (updated ! k) = erase (todoList ! k)" if "k < length todoList" for k
  proof -
    have "map erase updated ! k = map erase todoList ! k" by (simp only: e)
    then show ?thesis using that len by simp
  qed
  then have "\<And>k. k < length todoList \<Longrightarrow>
        todo_id (updated ! k) = todo_id (todoList ! k) \<and>
        todo_text (updated ! k) = todo_text (todoList ! k) \<and>
        depth (updated ! k) = depth (todoList ! k) \<and>
        priority (updated ! k) = priority (todoList ! k)"
    by (rule erase_fields)
  then have "\<forall>k<length todoList.
        todo_id (updated ! k) = todo_id (todoList ! k) \<and>
        todo_text (updated ! k) = todo_text (todoList ! k) \<and>
        depth (updated ! k) = depth (todoList ! k) \<and>
        priority (updated ! k) = priority (todoList ! k)"
    by blast
  with len show ?thesis by simp
qed

theorem toggle_frame_witness:
  "toggleTodo familyStore [1] =
     Inr [item 1 True 0 Normal, item 2 True 1 Normal, item 3 True 1 Normal] \<and>
   length [item 1 True 0 Normal, item 2 True 1 Normal, item 3 True 1 Normal] = length familyStore \<and>
   todo_id ([item 1 True 0 Normal, item 2 True 1 Normal, item 3 True 1 Normal] ! 1) =
     todo_id (familyStore ! 1) \<and>
   todo_text ([item 1 True 0 Normal, item 2 True 1 Normal, item 3 True 1 Normal] ! 1) =
     todo_text (familyStore ! 1) \<and>
   depth ([item 1 True 0 Normal, item 2 True 1 Normal, item 3 True 1 Normal] ! 1) =
     depth (familyStore ! 1) \<and>
   priority ([item 1 True 0 Normal, item 2 True 1 Normal, item 3 True 1 Normal] ! 1) =
     priority (familyStore ! 1)"
proof -
  have h: "toggleTodo familyStore [1] =
     Inr [item 1 True 0 Normal, item 2 True 1 Normal, item 3 True 1 Normal]" by code_simp
  have l: "(1::nat) < length familyStore" by (simp add: familyStore_def)
  note T = toggle_frame [OF h]
  from T have a: "length [item 1 True 0 Normal, item 2 True 1 Normal, item 3 True 1 Normal] =
      length familyStore" by blast
  from T l have b: "todo_id ([item 1 True 0 Normal, item 2 True 1 Normal, item 3 True 1 Normal] ! 1) =
     todo_id (familyStore ! 1) \<and>
   todo_text ([item 1 True 0 Normal, item 2 True 1 Normal, item 3 True 1 Normal] ! 1) =
     todo_text (familyStore ! 1) \<and>
   depth ([item 1 True 0 Normal, item 2 True 1 Normal, item 3 True 1 Normal] ! 1) =
     depth (familyStore ! 1) \<and>
   priority ([item 1 True 0 Normal, item 2 True 1 Normal, item 3 True 1 Normal] ! 1) =
     priority (familyStore ! 1)" by blast
  from h a b show ?thesis by blast
qed

subsection \<open>The upward pass\<close>

lemma gdc_loop_eq: "gdc_loop l p i acc = acc @ childrenOf (depth p) (drop i l)"
proof (induction l p i acc rule: gdc_loop.induct)
  case (1 l p i acc)
  show ?case
  proof (cases "i < length l")
    case True
    then have d: "drop i l = l ! i # drop (Suc i) l" by (simp add: Cons_nth_drop_Suc)
    show ?thesis
      apply (subst gdc_loop.simps)
      using True 1 by (simp add: d)
  next
    case False
    then show ?thesis by (subst gdc_loop.simps) simp
  qed
qed

lemma getDirectChildren_eq:
  "getDirectChildren l i = childrenOf (depth (l ! i)) (drop (Suc i) l)"
  by (simp add: getDirectChildren_def gdc_loop_eq)

lemma childrenOf_empty_cong:
  "map depth xs = map depth ys \<Longrightarrow> (childrenOf pd xs = []) = (childrenOf pd ys = [])"
proof (induction xs arbitrary: ys)
  case Nil
  then show ?case by simp
next
  case (Cons x xs)
  then obtain y ys' where ys: "ys = y # ys'" by (cases ys) auto
  with Cons.prems have "depth x = depth y" "map depth xs = map depth ys'" by simp_all
  with Cons.IH [of ys'] ys show ?case by simp
qed

lemma erase_depth: "erase a = erase b \<Longrightarrow> depth a = depth b"
  using erase_fields by blast

lemma map_erase_depth: "map erase xs = map erase ys \<Longrightarrow> map depth xs = map depth ys"
proof -
  assume a: "map erase xs = map erase ys"
  have "depth t = depth (erase t)" for t by (simp add: erase_def)
  then have "map depth zs = map depth (map erase zs)" for zs by simp
  then show ?thesis using a by metis
qed

lemma map_erase_nth_depth:
  assumes "map erase xs = map erase ys" "i < length xs"
  shows "depth (xs ! i) = depth (ys ! i)"
proof -
  from assms(1) have len: "length xs = length ys" by (rule map_eq_imp_length_eq)
  have "map depth xs ! i = map depth ys ! i" using map_erase_depth [OF assms(1)] by simp
  with assms(2) len show ?thesis by simp
qed

lemma upc_step_other: "j \<noteq> i \<Longrightarrow> upc_step l i ! j = l ! j"
  by (simp add: upc_step_def Let_def)

lemma upc_step_depth: "depth (upc_step l i ! j) = depth (l ! j)"
proof (cases "i < length l")
  case True
  then show ?thesis by (simp add: upc_step_def Let_def nth_list_update)
next
  case False
  then have "l[i := x] = l" for x by (simp add: list_update_beyond)
  then show ?thesis by (simp add: upc_step_def Let_def)
qed

lemma upc_step_drop: "drop (Suc i) (upc_step l i) = drop (Suc i) l"
  by (simp add: upc_step_def Let_def)

lemma upc_step_children: "getDirectChildren (upc_step l i) i = getDirectChildren l i"
  by (simp add: getDirectChildren_eq upc_step_drop upc_step_depth)

lemma list_ex_not_all: "list_ex (\<lambda>c. \<not> completed c) cs = (\<not> list_all completed cs)"
  by (induction cs) auto

lemma upc_step_parent:
  "i < length l \<Longrightarrow> depth (l ! i) < 2 \<Longrightarrow> getDirectChildren l i \<noteq> [] \<Longrightarrow>
     completed (upc_step l i ! i) = list_all completed (getDirectChildren l i)"
  by (auto simp: upc_step_def Let_def list_ex_not_all)

lemma upc_step_leaf:
  "2 \<le> depth (l ! i) \<or> getDirectChildren l i = [] \<Longrightarrow> upc_step l i = l"
  by (auto simp: upc_step_def Let_def)

lemma upc_loop_above: "n \<le> j \<Longrightarrow> upc_loop l n ! j = l ! j"
  by (induction n arbitrary: l) (simp_all add: upc_step_other)

lemma upc_loop_length [simp]: "length (upc_loop l n) = length l"
  by (induction n arbitrary: l) simp_all

lemma upc_loop_depth: "depth (upc_loop l n ! j) = depth (l ! j)"
  by (induction n arbitrary: l) (simp_all add: upc_step_depth)

lemma upc_loop_drop: "drop n (upc_loop l n) = drop n l"
  by (rule nth_equalityI) (simp_all add: upc_loop_above)

lemma upc_loop_children_above:
  "n \<le> Suc i \<Longrightarrow> getDirectChildren (upc_loop l n) i = getDirectChildren l i"
proof -
  assume a: "n \<le> Suc i"
  have "drop (Suc i) (upc_loop l n) = drop (Suc i) l"
    by (rule nth_equalityI) (use a in \<open>simp_all add: upc_loop_above\<close>)
  then show ?thesis by (simp add: getDirectChildren_eq upc_loop_depth)
qed

lemma children_empty_cong:
  assumes "length r = length l" "\<And>j. depth (r ! j) = depth (l ! j)"
  shows "(getDirectChildren r i = []) = (getDirectChildren l i = [])"
proof -
  have "map depth (drop (Suc i) r) = map depth (drop (Suc i) l)"
    by (rule nth_equalityI) (simp_all add: assms)
  from childrenOf_empty_cong [OF this] show ?thesis
    by (simp add: getDirectChildren_eq assms(2))
qed

lemma upc_loop_parent:
  "n \<le> length l \<Longrightarrow> i < n \<Longrightarrow> depth (l ! i) < 2 \<Longrightarrow> getDirectChildren l i \<noteq> [] \<Longrightarrow>
     completed (upc_loop l n ! i) = list_all completed (getDirectChildren (upc_loop l n) i)"
proof (induction n arbitrary: l)
  case 0
  then show ?case by simp
next
  case (Suc n)
  let ?l1 = "upc_step l n"
  have e: "(getDirectChildren ?l1 i = []) = (getDirectChildren l i = [])"
    by (rule children_empty_cong) (simp_all add: upc_step_depth)
  show ?case
  proof (cases "i < n")
    case True
    with Suc.IH [of ?l1] Suc.prems e show ?thesis by (simp add: upc_step_depth)
  next
    case False
    with Suc.prems have i: "i = n" by simp
    have "completed (upc_loop ?l1 n ! n) = completed (?l1 ! n)" by (simp add: upc_loop_above)
    also have "\<dots> = list_all completed (getDirectChildren l n)"
      using Suc.prems i by (simp add: upc_step_parent)
    also have "getDirectChildren l n = getDirectChildren (upc_loop ?l1 n) n"
      by (simp add: upc_loop_children_above upc_step_children)
    finally show ?thesis using i by simp
  qed
qed

lemma upc_loop_leaf:
  "2 \<le> depth (l ! i) \<or> getDirectChildren l i = [] \<Longrightarrow> upc_loop l n ! i = l ! i"
proof (induction n arbitrary: l)
  case 0
  then show ?case by simp
next
  case (Suc n)
  let ?l1 = "upc_step l n"
  have e: "(getDirectChildren ?l1 i = []) = (getDirectChildren l i = [])"
    by (rule children_empty_cong) (simp_all add: upc_step_depth)
  have "upc_loop ?l1 n ! i = ?l1 ! i"
    by (rule Suc.IH) (use Suc.prems e in \<open>simp add: upc_step_depth\<close>)
  also have "?l1 ! i = l ! i"
  proof (cases "i = n")
    case True
    with Suc.prems show ?thesis by (simp add: upc_step_leaf)
  next
    case False
    then show ?thesis by (simp add: upc_step_other)
  qed
  finally show ?case by simp
qed

text \<open>Claim C2. In the list a toggle returns, every item of depth below 2 with at least one direct child is completed exactly when all its direct children are, and every item without direct children has the \<open>completed\<close> value the downward pass (\<open>toggleDownward\<close>) left it with.\<close>

theorem toggle_parents_match_children:
  assumes "toggleTodo todoList ident = Inr updated"
  shows "(\<forall>i<length updated. depth (updated ! i) < 2 \<and> getDirectChildren updated i \<noteq> [] \<longrightarrow>
            completed (updated ! i) = list_all completed (getDirectChildren updated i)) \<and>
         (\<forall>i<length updated. getDirectChildren updated i = [] \<longrightarrow>
            completed (updated ! i) =
            completed (toggleDownward todoList
                         (nat (findIndex (\<lambda>t. todo_id t = ident) todoList)) ! i))"
proof -
  let ?k = "nat (findIndex (\<lambda>t. todo_id t = ident) todoList)"
  let ?d = "toggleDownward todoList ?k"
  from assms have u: "updated = upc_loop ?d (length ?d)"
    by (auto simp: toggleTodo_def Let_def updateParentCompletion_def split: if_splits)
  have dep: "depth (updated ! j) = depth (?d ! j)" for j by (simp add: u upc_loop_depth)
  have e: "(getDirectChildren updated i = []) = (getDirectChildren ?d i = [])" for i
    by (rule children_empty_cong) (simp_all add: u upc_loop_depth)
  have p1: "completed (updated ! i) = list_all completed (getDirectChildren updated i)"
    if "i < length updated" "depth (updated ! i) < 2" "getDirectChildren updated i \<noteq> []" for i
    unfolding u by (rule upc_loop_parent) (use that dep e u in simp_all)
  have p2: "completed (updated ! i) = completed (?d ! i)"
    if "getDirectChildren updated i = []" for i
    using that e upc_loop_leaf [of ?d i "length ?d"] by (simp add: u)
  from p1 p2 show ?thesis by blast
qed

theorem toggle_parents_match_children_witness:
  "toggleTodo familyStore [2] =
     Inr [item 1 False 0 Normal, item 2 True 1 Normal, item 3 False 1 Normal] \<and>
   depth ([item 1 False 0 Normal, item 2 True 1 Normal, item 3 False 1 Normal] ! 0) < 2 \<and>
   getDirectChildren [item 1 False 0 Normal, item 2 True 1 Normal, item 3 False 1 Normal] 0 \<noteq> [] \<and>
   completed ([item 1 False 0 Normal, item 2 True 1 Normal, item 3 False 1 Normal] ! 0) =
     list_all completed
       (getDirectChildren [item 1 False 0 Normal, item 2 True 1 Normal, item 3 False 1 Normal] 0) \<and>
   getDirectChildren [item 1 False 0 Normal, item 2 True 1 Normal, item 3 False 1 Normal] 2 = [] \<and>
   completed ([item 1 False 0 Normal, item 2 True 1 Normal, item 3 False 1 Normal] ! 2) =
     completed (toggleDownward familyStore (nat (findIndex (\<lambda>t. todo_id t = [2]) familyStore)) ! 2)"
proof -
  let ?r = "[item 1 False 0 Normal, item 2 True 1 Normal, item 3 False 1 Normal]"
  have h: "toggleTodo familyStore [2] = Inr ?r" by code_simp
  have c0: "getDirectChildren ?r 0 \<noteq> []" by code_simp
  have c2: "getDirectChildren ?r 2 = []" by code_simp
  have d0: "depth (?r ! 0) < 2" by (simp add: item_def)
  have l: "0 < length ?r" "2 < length ?r" by simp_all
  note T = toggle_parents_match_children [OF h]
  from T l(1) d0 c0 have a: "completed (?r ! 0) = list_all completed (getDirectChildren ?r 0)"
    by blast
  from T l(2) c2 have b: "completed (?r ! 2) =
     completed (toggleDownward familyStore (nat (findIndex (\<lambda>t. todo_id t = [2]) familyStore)) ! 2)"
    by blast
  from h d0 c0 a c2 b show ?thesis by blast
qed

subsection \<open>Enter in the text field\<close>

text \<open>Claim C7. Enter outside text composition on a draft whose trimmed text is not empty appends one item to the end of the store, not completed, with the trimmed text and the draft depth and priority; the items before it are unchanged; afterwards the draft text is empty, the draft priority is normal and the draft depth is as before.\<close>

theorem enter_commits_draft:
  assumes "key e = ''Enter''" "\<not> isComposing e" "trim (inputValue s) \<noteq> []"
  shows "todos (handleKeyDown s e now) =
           todos s @ [\<lparr>todo_id = numberToString now, todo_text = trim (inputValue s),
                       completed = False, depth = inputDepth s, priority = inputPriority s\<rparr>] \<and>
         inputValue (handleKeyDown s e now) = [] \<and>
         inputPriority (handleKeyDown s e now) = Normal \<and>
         inputDepth (handleKeyDown s e now) = inputDepth s"
  using assms by (simp add: handleKeyDown_def addTodo_def Let_def)

theorem enter_commits_draft_witness:
  "key enterKey = ''Enter'' \<and> \<not> isComposing enterKey \<and> trim (inputValue draftState) \<noteq> [] \<and>
   todos (handleKeyDown draftState enterKey 1700) =
     familyStore @ [\<lparr>todo_id = [49, 55, 48, 48], todo_text = [104, 105],
                     completed = False, depth = 2, priority = Urgent\<rparr>] \<and>
   inputValue (handleKeyDown draftState enterKey 1700) = [] \<and>
   inputPriority (handleKeyDown draftState enterKey 1700) = Normal \<and>
   inputDepth (handleKeyDown draftState enterKey 1700) = 2"
proof -
  have k: "key enterKey = ''Enter''" "\<not> isComposing enterKey" by (simp_all add: enterKey_def)
  have t: "trim (inputValue draftState) = [104, 105]"
    by (simp add: draftState_def trim_def isWhiteSpace_def)
  then have t': "trim (inputValue draftState) \<noteq> []" by simp
  have n: "numberToString 1700 = [49, 55, 48, 48]"
    by (simp add: numberToString_def natDigits.simps)
  have d: "todos draftState = familyStore" "inputDepth draftState = 2"
    "inputPriority draftState = Urgent" by (simp_all add: draftState_def)
  from enter_commits_draft [OF k t', of 1700] k t t' n d show ?thesis by simp
qed

text \<open>Claim C8. Enter on a draft whose text trims to the empty string changes nothing: no item is created and the draft depth and priority stay (the whole view state is the same, and \<open>addTodo\<close> itself returns early).\<close>

theorem enter_on_blank_draft:
  assumes "key e = ''Enter''" "trim (inputValue s) = []"
  shows "handleKeyDown s e now = s \<and> addTodo s now = s"
  using assms by (simp add: handleKeyDown_def addTodo_def)

theorem enter_on_blank_draft_witness:
  "key enterKey = ''Enter'' \<and> trim (inputValue blankState) = [] \<and>
   handleKeyDown blankState enterKey 1700 = blankState \<and> addTodo blankState 1700 = blankState"
proof -
  have k: "key enterKey = ''Enter''" by (simp add: enterKey_def)
  have t: "trim (inputValue blankState) = []"
    by (simp add: blankState_def trim_def isWhiteSpace_def)
  from enter_on_blank_draft [OF k t, of 1700] k t show ?thesis by simp
qed

subsection \<open>Display ordering\<close>

text \<open>The sort permutes the array: the first run keeps the elements, reversed or not, and every insertion puts the pivot between two parts of what was there.\<close>

lemma runLength_le: "runLength d cmp p xs \<le> length xs"
  by (induction xs arbitrary: p) (simp_all add: Let_def)

lemma countAndMakeRun_length:
  "countAndMakeRun cmp xs = (ys, n) \<Longrightarrow> length ys = length xs \<and> n \<le> length xs"
proof (cases xs)
  case Nil
  then show "countAndMakeRun cmp xs = (ys, n) \<Longrightarrow> length ys = length xs \<and> n \<le> length xs"
    by (auto simp: countAndMakeRun_def)
next
  case (Cons a as)
  assume r: "countAndMakeRun cmp xs = (ys, n)"
  show "length ys = length xs \<and> n \<le> length xs"
  proof (cases as)
    case Nil
    with Cons r show ?thesis by (auto simp: countAndMakeRun_def)
  next
    case (Cons b bs)
    have "runLength d cmp b bs \<le> length bs" for d by (rule runLength_le)
    with r \<open>xs = a # as\<close> Cons show ?thesis
      by (auto simp: countAndMakeRun_def Let_def split: if_splits)
  qed
qed

lemma mset_take_drop: "mset (take k xs) + mset (drop k xs) = mset xs"
  by (metis append_take_drop_id mset_append)

lemma countAndMakeRun_mset: "countAndMakeRun cmp xs = (ys, n) \<Longrightarrow> mset ys = mset xs"
proof -
  assume r: "countAndMakeRun cmp xs = (ys, n)"
  then show ?thesis
    by (auto simp: countAndMakeRun_def Let_def mset_take_drop split: list.splits if_splits)
qed

lemma binarySearch_bounds:
  "left \<le> right \<Longrightarrow>
     left \<le> binarySearch cmp pivot ys left right \<and> binarySearch cmp pivot ys left right \<le> right"
proof (induction cmp pivot ys left right rule: binarySearch.induct)
  case (1 cmp pivot ys left right)
  show ?case
  proof (cases "left < right")
    case True
    define mid where "mid = left + (right - left) div 2"
    from True have m: "left \<le> mid" "mid < right" by (simp_all add: mid_def)
    show ?thesis
    proof (cases "cmp pivot (ys ! mid) < 0")
      case lt: True
      from "1.IH"(1) [OF True mid_def refl lt] m
      have "left \<le> binarySearch cmp pivot ys left mid \<and> binarySearch cmp pivot ys left mid \<le> mid"
        by simp
      moreover have "binarySearch cmp pivot ys left right = binarySearch cmp pivot ys left mid"
        by (subst binarySearch.simps) (use True lt in \<open>simp add: mid_def Let_def\<close>)
      ultimately show ?thesis using m by simp
    next
      case ge: False
      from "1.IH"(2) [OF True mid_def refl ge] m
      have "mid + 1 \<le> binarySearch cmp pivot ys (mid + 1) right \<and>
            binarySearch cmp pivot ys (mid + 1) right \<le> right"
        by simp
      moreover have "binarySearch cmp pivot ys left right = binarySearch cmp pivot ys (mid + 1) right"
        by (subst binarySearch.simps) (use True ge in \<open>simp add: mid_def Let_def\<close>)
      ultimately show ?thesis using m by simp
    qed
  next
    case False
    then have "binarySearch cmp pivot ys left right = left"
      by (subst binarySearch.simps) simp
    with "1.prems" show ?thesis by simp
  qed
qed

lemma mset_binaryInsertionSort:
  "mset (binaryInsertionSort cmp s r) = mset s + mset r"
proof (induction r arbitrary: s)
  case Nil
  then show ?case by simp
next
  case (Cons p r)
  define q where "q = binarySearch cmp p s 0 (length s)"
  have "mset (take q s @ p # drop q s) = add_mset p (mset s)"
    by (simp add: mset_take_drop)
  with Cons.IH [of "take q s @ p # drop q s"] show ?case by (simp add: q_def Let_def)
qed

lemma mset_arraySort: "mset (arraySort cmp xs) = mset xs"
proof (cases "length xs < 2")
  case True
  then show ?thesis by (simp add: arraySort_def)
next
  case False
  obtain ys n where r: "countAndMakeRun cmp xs = (ys, n)" by (cases "countAndMakeRun cmp xs")
  have "mset (take n ys) + mset (drop n ys) = mset ys" by (rule mset_take_drop)
  with countAndMakeRun_mset [OF r] False r show ?thesis
    by (simp add: arraySort_def mset_binaryInsertionSort)
qed

lemma set_arraySort: "set (arraySort cmp xs) = set xs"
  using mset_arraySort [of cmp xs] by (metis set_mset_mset)

lemma length_arraySort: "length (arraySort cmp xs) = length xs"
  using mset_arraySort [of cmp xs] by (metis size_mset)

text \<open>For a comparator with \<open>cmp a b < 0 \<Longrightarrow> 0 \<le> cmp b a\<close> the sorted array is a chain: every element compares \<open>\<ge> 0\<close> with the one before it. The first run is one by the test of its loop, and the binary search ends between the last element it found \<open>\<le>\<close> the pivot and the first it found greater. On a chain the first run is the whole array, and nothing is inserted.\<close>

lemma runLength_ascending:
  "successively (\<lambda>a b. 0 \<le> cmp b a) (p # take (runLength False cmp p xs) xs)"
  by (induction xs arbitrary: p) (simp_all add: Let_def)

lemma runLength_descending:
  "successively (\<lambda>a b. cmp b a < 0) (p # take (runLength True cmp p xs) xs)"
  by (induction xs arbitrary: p) (simp_all add: Let_def)












text \<open>On a sortable store the binary search meets a monotone test: once the pivot compares below an element of the sorted part, it compares below every later one. So the search finds the one place that keeps the sorted part in the order \<open>placedBefore\<close>.\<close>

lemma tagCompare_neg:
  "(tagCompare p x < 0) =
     (depth (snd p) = depth (snd x) \<and> priorityRank (snd p) < priorityRank (snd x))"
  by (simp add: tagCompare_def compareTodos_def priorityRank_def)

lemma sortableTaggedD:
  "sortableTagged S \<Longrightarrow> x \<in> S \<Longrightarrow> y \<in> S \<Longrightarrow> z \<in> S \<Longrightarrow> fst x < fst y \<Longrightarrow>
   depth (snd x) = depth (snd y) \<Longrightarrow> priorityRank (snd y) < priorityRank (snd x) \<Longrightarrow>
   fst x < fst z \<Longrightarrow> fst z < fst y \<Longrightarrow> depth (snd z) = depth (snd x)"
  unfolding sortableTagged_def by blast

lemma sortableTagged_subset: "sortableTagged S \<Longrightarrow> S' \<subseteq> S \<Longrightarrow> sortableTagged S'"
  unfolding sortableTagged_def by blast

lemma binarySearch_partition:
  assumes "\<And>i j. i < j \<Longrightarrow> j < length ys \<Longrightarrow> cmp pivot (ys ! i) < 0 \<Longrightarrow> cmp pivot (ys ! j) < 0"
    and "left \<le> right" "right \<le> length ys"
    and "\<forall>i<left. 0 \<le> cmp pivot (ys ! i)"
    and "\<forall>i. right \<le> i \<and> i < length ys \<longrightarrow> cmp pivot (ys ! i) < 0"
  shows "(\<forall>i<binarySearch cmp pivot ys left right. 0 \<le> cmp pivot (ys ! i)) \<and>
         (\<forall>i. binarySearch cmp pivot ys left right \<le> i \<and> i < length ys \<longrightarrow>
              cmp pivot (ys ! i) < 0)"
  using assms
proof (induction cmp pivot ys left right rule: binarySearch.induct)
  case (1 cmp pivot ys left right)
  note mono = "1.prems"(1)
  show ?case
  proof (cases "left < right")
    case True
    define mid where "mid = left + (right - left) div 2"
    from True have m: "left \<le> mid" "mid < right" by (simp_all add: mid_def)
    with "1.prems"(3) have ml: "mid < length ys" by simp
    show ?thesis
    proof (cases "cmp pivot (ys ! mid) < 0")
      case lt: True
      have e: "binarySearch cmp pivot ys left right = binarySearch cmp pivot ys left mid"
        by (subst binarySearch.simps) (use True lt in \<open>simp add: mid_def Let_def\<close>)
      have above: "\<forall>i. mid \<le> i \<and> i < length ys \<longrightarrow> cmp pivot (ys ! i) < 0"
      proof (intro allI impI)
        fix i assume i: "mid \<le> i \<and> i < length ys"
        show "cmp pivot (ys ! i) < 0"
        proof (cases "i = mid")
          case True
          with lt show ?thesis by simp
        next
          case False
          with i have "mid < i" "i < length ys" by simp_all
          then show ?thesis using lt by (rule mono)
        qed
      qed
      show ?thesis
        unfolding e
      proof (rule "1.IH"(1) [OF True mid_def refl lt])
        show "\<And>i j. i < j \<Longrightarrow> j < length ys \<Longrightarrow> cmp pivot (ys ! i) < 0 \<Longrightarrow> cmp pivot (ys ! j) < 0"
          by (rule mono)
        show "left \<le> mid" by (rule m)
        show "mid \<le> length ys" using ml by simp
        show "\<forall>i<left. 0 \<le> cmp pivot (ys ! i)" by (rule "1.prems"(4))
        show "\<forall>i. mid \<le> i \<and> i < length ys \<longrightarrow> cmp pivot (ys ! i) < 0" by (rule above)
      qed
    next
      case ge: False
      have e: "binarySearch cmp pivot ys left right = binarySearch cmp pivot ys (mid + 1) right"
        by (subst binarySearch.simps) (use True ge in \<open>simp add: mid_def Let_def\<close>)
      have below: "\<forall>i<mid + 1. 0 \<le> cmp pivot (ys ! i)"
      proof (intro allI impI)
        fix i assume i: "i < mid + 1"
        show "0 \<le> cmp pivot (ys ! i)"
        proof (cases "i = mid")
          case True
          with ge show ?thesis by simp
        next
          case False
          with i have im: "i < mid" by simp
          show ?thesis
          proof (rule ccontr)
            assume "\<not> 0 \<le> cmp pivot (ys ! i)"
            then have "cmp pivot (ys ! i) < 0" by simp
            with im ml have "cmp pivot (ys ! mid) < 0" by (rule mono)
            with ge show False by simp
          qed
        qed
      qed
      show ?thesis
        unfolding e
      proof (rule "1.IH"(2) [OF True mid_def refl ge])
        show "\<And>i j. i < j \<Longrightarrow> j < length ys \<Longrightarrow> cmp pivot (ys ! i) < 0 \<Longrightarrow> cmp pivot (ys ! j) < 0"
          by (rule mono)
        show "mid + 1 \<le> right" using m by simp
        show "right \<le> length ys" by (rule "1.prems"(3))
        show "\<forall>i<mid + 1. 0 \<le> cmp pivot (ys ! i)" by (rule below)
        show "\<forall>i. right \<le> i \<and> i < length ys \<longrightarrow> cmp pivot (ys ! i) < 0" by (rule "1.prems"(5))
      qed
    qed
  next
    case False
    then have e: "binarySearch cmp pivot ys left right = left"
      by (subst binarySearch.simps) simp
    from False "1.prems"(2) have "left = right" by simp
    with "1.prems"(4,5) show ?thesis unfolding e by simp
  qed
qed

lemma pivot_monotone:
  assumes s: "sorted_wrt placedBefore s"
    and tags: "\<forall>x\<in>set s. fst x < fst p"
    and sortable: "sortableTagged (insert p (set s))"
    and ij: "i < j" "j < length s"
    and neg: "tagCompare p (s ! i) < 0"
  shows "tagCompare p (s ! j) < 0"
proof -
  let ?x = "s ! i" and ?y = "s ! j"
  from ij have mem: "?x \<in> set s" "?y \<in> set s" by simp_all
  from neg have dx: "depth (snd p) = depth (snd ?x)"
    and rx: "priorityRank (snd p) < priorityRank (snd ?x)" by (simp_all add: tagCompare_neg)
  from s ij have b: "placedBefore ?x ?y" by (rule sorted_wrt_nth_less)
  from tags mem have tx: "fst ?x < fst p" and ty: "fst ?y < fst p" by simp_all
  have dy: "depth (snd ?y) = depth (snd ?x)"
  proof (rule ccontr)
    assume ne: "depth (snd ?y) \<noteq> depth (snd ?x)"
    with b have "fst ?x < fst ?y" by (auto simp: placedBefore_def)
    moreover have "?x \<in> insert p (set s)" "p \<in> insert p (set s)" "?y \<in> insert p (set s)"
      using mem by simp_all
    ultimately have "depth (snd ?y) = depth (snd ?x)"
      using sortable tx dx [symmetric] rx ty by (blast intro: sortableTaggedD)
    with ne show False by blast
  qed
  with b have "priorityRank (snd ?x) \<le> priorityRank (snd ?y)" by (auto simp: placedBefore_def)
  with rx dx dy show ?thesis by (simp add: tagCompare_neg)
qed

lemma insert_sorted:
  assumes s: "sorted_wrt placedBefore s"
    and tags: "\<forall>x\<in>set s. fst x < fst p"
    and sortable: "sortableTagged (insert p (set s))"
  shows "sorted_wrt placedBefore
           (take (binarySearch tagCompare p s 0 (length s)) s @
            p # drop (binarySearch tagCompare p s 0 (length s)) s)"
proof -
  define q where "q = binarySearch tagCompare p s 0 (length s)"
  have part: "(\<forall>i<q. 0 \<le> tagCompare p (s ! i)) \<and>
              (\<forall>i. q \<le> i \<and> i < length s \<longrightarrow> tagCompare p (s ! i) < 0)"
    unfolding q_def
  proof (rule binarySearch_partition)
    show "\<And>i j. i < j \<Longrightarrow> j < length s \<Longrightarrow> tagCompare p (s ! i) < 0 \<Longrightarrow> tagCompare p (s ! j) < 0"
      by (rule pivot_monotone [OF s tags sortable])
  qed simp_all
  from binarySearch_bounds [of 0 "length s" tagCompare p s] have ql: "q \<le> length s"
    by (simp add: q_def)
  from s have "sorted_wrt placedBefore (take q s @ drop q s)" by simp
  then have t: "sorted_wrt placedBefore (take q s)" and d: "sorted_wrt placedBefore (drop q s)"
    and cross: "\<forall>x\<in>set (take q s). \<forall>y\<in>set (drop q s). placedBefore x y"
    unfolding sorted_wrt_append by simp_all
  have low: "placedBefore x p" if "x \<in> set (take q s)" for x
  proof -
    from that obtain i where i: "i < length (take q s)" "x = take q s ! i"
      by (auto simp: in_set_conv_nth)
    with ql have iq: "i < q" and xi: "x = s ! i" by simp_all
    with part have ge: "0 \<le> tagCompare p x" by simp
    from iq ql xi have "x \<in> set s" by simp
    with tags have tg: "fst x < fst p" by simp
    show ?thesis
    proof (cases "depth (snd x) = depth (snd p)")
      case True
      with ge have "priorityRank (snd x) \<le> priorityRank (snd p)"
        by (simp add: tagCompare_def compareTodos_def priorityRank_def)
      with True tg show ?thesis by (auto simp: placedBefore_def)
    next
      case False
      with tg show ?thesis by (simp add: placedBefore_def)
    qed
  qed
  have high: "placedBefore p y" if "y \<in> set (drop q s)" for y
  proof -
    from that obtain i where i: "i < length (drop q s)" "y = drop q s ! i"
      by (auto simp: in_set_conv_nth)
    then have "q + i < length s" and "y = s ! (q + i)" using ql by simp_all
    with part have "tagCompare p y < 0" by simp
    then show ?thesis by (auto simp: tagCompare_neg placedBefore_def)
  qed
  from t d cross low high have "sorted_wrt placedBefore (take q s @ p # drop q s)"
    by (simp add: sorted_wrt_append)
  then show ?thesis by (simp only: q_def)
qed

lemma binaryInsertionSort_sorted:
  assumes "sorted_wrt placedBefore s"
    and "sorted_wrt (\<lambda>x y. fst x < fst y) r"
    and "\<forall>x\<in>set s. \<forall>y\<in>set r. fst x < fst y"
    and "sortableTagged (set s \<union> set r)"
  shows "sorted_wrt placedBefore (binaryInsertionSort tagCompare s r)"
  using assms
proof (induction r arbitrary: s)
  case Nil
  then show ?case by simp
next
  case (Cons p r)
  define q where "q = binarySearch tagCompare p s 0 (length s)"
  define s' where "s' = take q s @ p # drop q s"
  have set_s': "set s' = insert p (set s)"
  proof -
    have "set (take q s) \<union> set (drop q s) = set (take q s @ drop q s)"
      by (simp only: set_append)
    also have "\<dots> = set s" by (simp only: append_take_drop_id)
    finally show ?thesis by (simp add: s'_def)
  qed
  have "sorted_wrt placedBefore s'"
    unfolding s'_def q_def
  proof (rule insert_sorted)
    show "sorted_wrt placedBefore s" by (rule Cons.prems(1))
    show "\<forall>x\<in>set s. fst x < fst p" using Cons.prems(3) by simp
    show "sortableTagged (insert p (set s))"
      by (rule sortableTagged_subset [OF Cons.prems(4)]) auto
  qed
  moreover have "sorted_wrt (\<lambda>x y. fst x < fst y) r" using Cons.prems(2) by simp
  moreover have "\<forall>x\<in>set s'. \<forall>y\<in>set r. fst x < fst y"
    using Cons.prems(2,3) by (auto simp: set_s')
  moreover have "sortableTagged (set s' \<union> set r)"
    by (rule sortableTagged_subset [OF Cons.prems(4)]) (auto simp: set_s')
  ultimately have "sorted_wrt placedBefore (binaryInsertionSort tagCompare s' r)"
    by (rule Cons.IH)
  then show ?case by (simp add: s'_def q_def Let_def)
qed

text \<open>The first run of a sortable store is in the order \<open>placedBefore\<close>: a descending run has one depth and strictly falling ranks, and is reversed; in an ascending run two items of one depth out of rank order would have only items of their depth between them, and the run would have broken there.\<close>

lemma countAndMakeRun_run:
  assumes r: "countAndMakeRun cmp xs = (ys, n)" and l: "2 \<le> length xs"
  shows "n \<le> length xs \<and>
         ((ys = xs \<and> successively (\<lambda>a b. 0 \<le> cmp b a) (take n xs)) \<or>
          (ys = rev (take n xs) @ drop n xs \<and> successively (\<lambda>a b. cmp b a < 0) (take n xs)))"
proof -
  from l obtain a b rest where xs: "xs = a # b # rest"
    by (cases xs; cases "tl xs") auto
  define k where "k = runLength (cmp b a < 0) cmp b rest"
  from r have n: "n = Suc (Suc k)"
    by (simp add: countAndMakeRun_def xs Let_def k_def)
  from r have ys: "ys = (if cmp b a < 0 then rev (take n xs) @ drop n xs else xs)"
    by (auto simp: countAndMakeRun_def xs Let_def k_def n split: if_splits)
  have t: "take n xs = a # b # take k rest" by (simp add: xs n)
  have "k \<le> length rest" unfolding k_def by (rule runLength_le)
  then have nl: "n \<le> length xs" by (simp add: n xs)
  show ?thesis
  proof (cases "cmp b a < 0")
    case True
    then have "successively (\<lambda>a b. cmp b a < 0) (b # take k rest)"
      using runLength_descending [of cmp b rest] by (simp add: k_def)
    with True have "successively (\<lambda>a b. cmp b a < 0) (take n xs)" by (simp add: t)
    with True ys nl show ?thesis by simp
  next
    case False
    then have "successively (\<lambda>a b. 0 \<le> cmp b a) (b # take k rest)"
      using runLength_ascending [of cmp b rest] by (simp add: k_def)
    with False have "successively (\<lambda>a b. 0 \<le> cmp b a) (take n xs)" by (simp add: t)
    with False ys nl show ?thesis by simp
  qed
qed

lemma descending_run_sorted:
  assumes "successively (\<lambda>a b. tagCompare b a < 0) s"
  shows "sorted_wrt (\<lambda>x y. placedBefore y x) s"
proof -
  let ?R = "\<lambda>a b. depth (snd b) = depth (snd a) \<and> priorityRank (snd b) < priorityRank (snd a)"
  from assms have su: "successively ?R s" by (simp add: tagCompare_neg)
  have tr: "transp ?R" by (rule transpI) (metis order.strict_trans)
  from su have "sorted_wrt ?R s" unfolding successively_conv_sorted_wrt [OF tr] .
  then show ?thesis
    by (rule sorted_wrt_mono_rel [rotated]) (simp add: placedBefore_def)
qed

lemma chain_rank_mono:
  assumes chain: "\<forall>m. Suc m < length s \<longrightarrow> 0 \<le> tagCompare (s ! Suc m) (s ! m)"
    and same: "\<forall>m. i \<le> m \<and> m \<le> j \<longrightarrow> depth (snd (s ! m)) = d"
    and j: "j < length s"
  shows "i \<le> k \<Longrightarrow> k \<le> j \<Longrightarrow> priorityRank (snd (s ! i)) \<le> priorityRank (snd (s ! k))"
proof (induction k)
  case 0
  then show ?case by simp
next
  case (Suc k)
  show ?case
  proof (cases "i = Suc k")
    case True
    then show ?thesis by simp
  next
    case False
    with Suc.prems have ik: "i \<le> k" and kj: "k \<le> j" by simp_all
    from Suc.IH [OF ik kj] have ih: "priorityRank (snd (s ! i)) \<le> priorityRank (snd (s ! k))" .
    from Suc.prems j have "Suc k < length s" by simp
    with chain have c: "0 \<le> tagCompare (s ! Suc k) (s ! k)" by blast
    from same ik kj have d1: "depth (snd (s ! k)) = d" by blast
    from same Suc.prems have d2: "depth (snd (s ! Suc k)) = d" by blast
    from c have "priorityRank (snd (s ! k)) \<le> priorityRank (snd (s ! Suc k))"
      by (simp add: tagCompare_def compareTodos_def priorityRank_def d1 d2)
    with ih show ?thesis by simp
  qed
qed

lemma ascending_run_sorted:
  assumes chain: "successively (\<lambda>a b. 0 \<le> tagCompare b a) s"
    and tg: "sorted_wrt (\<lambda>x y. fst x < fst y) s"
    and sortable: "sortableTagged (set s)"
  shows "sorted_wrt placedBefore s"
  unfolding sorted_wrt_iff_nth_less
proof (intro allI impI)
  fix i j assume ij: "i < j" and j: "j < length s"
  let ?x = "s ! i" and ?y = "s ! j"
  from tg ij j have t: "fst ?x < fst ?y" by (rule sorted_wrt_nth_less)
  from chain have ch: "\<forall>m. Suc m < length s \<longrightarrow> 0 \<le> tagCompare (s ! Suc m) (s ! m)"
    by (simp add: successively_conv_nth)
  show "placedBefore ?x ?y"
  proof (cases "depth (snd ?x) = depth (snd ?y)")
    case False
    with t show ?thesis by (simp add: placedBefore_def)
  next
    case True
    have "priorityRank (snd ?x) \<le> priorityRank (snd ?y)"
    proof (rule ccontr)
      assume "\<not> priorityRank (snd ?x) \<le> priorityRank (snd ?y)"
      then have lt: "priorityRank (snd ?y) < priorityRank (snd ?x)" by simp
      have same: "\<forall>m. i \<le> m \<and> m \<le> j \<longrightarrow> depth (snd (s ! m)) = depth (snd ?x)"
      proof (intro allI impI)
        fix m assume m: "i \<le> m \<and> m \<le> j"
        show "depth (snd (s ! m)) = depth (snd ?x)"
        proof (cases "m = i \<or> m = j")
          case True
          then show ?thesis using \<open>depth (snd ?x) = depth (snd ?y)\<close> by metis
        next
          case False
          with m have im: "i < m" and mj: "m < j" by simp_all
          from mj j have "m < length s" by simp
          with tg im have t1: "fst ?x < fst (s ! m)" by (rule sorted_wrt_nth_less)
          from tg mj j have t2: "fst (s ! m) < fst ?y" by (rule sorted_wrt_nth_less)
          from ij j im mj have mem: "?x \<in> set s" "?y \<in> set s" "s ! m \<in> set s" by simp_all
          from sortable mem(1,2,3) t True lt t1 t2 show ?thesis by (rule sortableTaggedD)
        qed
      qed
      from chain_rank_mono [OF ch same j, of j] ij
      have "priorityRank (snd ?x) \<le> priorityRank (snd ?y)" by simp
      with lt show False by simp
    qed
    with True t show ?thesis by (auto simp: placedBefore_def)
  qed
qed

lemma run_sorted:
  assumes r: "countAndMakeRun tagCompare ts = (w, n)"
    and l: "2 \<le> length ts"
    and tg: "sorted_wrt (\<lambda>x y. fst x < fst y) ts"
    and sortable: "sortableTagged (set ts)"
  shows "sorted_wrt placedBefore (take n w) \<and>
         sorted_wrt (\<lambda>x y. fst x < fst y) (drop n w) \<and>
         (\<forall>x\<in>set (take n w). \<forall>y\<in>set (drop n w). fst x < fst y) \<and>
         set (take n w) \<union> set (drop n w) = set ts"
proof -
  from tg have "sorted_wrt (\<lambda>x y. fst x < fst y) (take n ts @ drop n ts)" by simp
  then have tt: "sorted_wrt (\<lambda>x y. fst x < fst y) (take n ts)"
    and td: "sorted_wrt (\<lambda>x y. fst x < fst y) (drop n ts)"
    and cross: "\<forall>x\<in>set (take n ts). \<forall>y\<in>set (drop n ts). fst x < fst y"
    unfolding sorted_wrt_append by simp_all
  have "set (take n ts) \<union> set (drop n ts) = set (take n ts @ drop n ts)"
    by (simp only: set_append)
  also have "\<dots> = set ts" by (simp only: append_take_drop_id)
  finally have sets: "set (take n ts) \<union> set (drop n ts) = set ts" .
  have sub: "sortableTagged (set (take n ts))"
    by (rule sortableTagged_subset [OF sortable]) (rule set_take_subset)
  from countAndMakeRun_run [OF r l] have nl: "n \<le> length ts"
    and cases: "(w = ts \<and> successively (\<lambda>a b. 0 \<le> tagCompare b a) (take n ts)) \<or>
       (w = rev (take n ts) @ drop n ts \<and> successively (\<lambda>a b. tagCompare b a < 0) (take n ts))"
    by simp_all
  from cases show ?thesis
  proof
    assume a: "w = ts \<and> successively (\<lambda>a b. 0 \<le> tagCompare b a) (take n ts)"
    then have "sorted_wrt placedBefore (take n ts)" using tt sub
      by (blast intro: ascending_run_sorted)
    with a td cross sets show ?thesis by simp
  next
    assume d: "w = rev (take n ts) @ drop n ts \<and>
      successively (\<lambda>a b. tagCompare b a < 0) (take n ts)"
    from nl have len: "length (rev (take n ts)) = n" by simp
    from d len have tw: "take n w = rev (take n ts)" by simp
    from d len have dw: "drop n w = drop n ts" by simp
    from d have "sorted_wrt (\<lambda>x y. placedBefore y x) (take n ts)"
      by (blast intro: descending_run_sorted)
    then have "sorted_wrt placedBefore (rev (take n ts))" by (simp only: sorted_wrt_rev)
    with td cross sets show ?thesis unfolding tw dw by simp
  qed
qed

lemma arraySort_tagged_sorted:
  assumes tg: "sorted_wrt (\<lambda>x y. fst x < fst y) ts"
    and sortable: "sortableTagged (set ts)"
  shows "sorted_wrt placedBefore (arraySort tagCompare ts)"
proof (cases "length ts < 2")
  case True
  then have "ts = [] \<or> (\<exists>a. ts = [a])" by (cases ts) (auto simp: length_Suc_conv)
  with True show ?thesis by (auto simp: arraySort_def)
next
  case False
  obtain w n where r: "countAndMakeRun tagCompare ts = (w, n)"
    by (cases "countAndMakeRun tagCompare ts")
  from False have l: "2 \<le> length ts" by simp
  note rs = run_sorted [OF r l tg sortable]
  have "sorted_wrt placedBefore (binaryInsertionSort tagCompare (take n w) (drop n w))"
  proof (rule binaryInsertionSort_sorted)
    show "sorted_wrt placedBefore (take n w)" using rs by blast
    show "sorted_wrt (\<lambda>x y. fst x < fst y) (drop n w)" using rs by blast
    show "\<forall>x\<in>set (take n w). \<forall>y\<in>set (drop n w). fst x < fst y" using rs by blast
    from rs have "set (take n w) \<union> set (drop n w) = set ts" by blast
    with sortable show "sortableTagged (set (take n w) \<union> set (drop n w))" by simp
  qed
  with False r show ?thesis by (simp add: arraySort_def)
qed

text \<open>The sort sees its elements only through the comparator, so sorting tagged items and dropping the tags is sorting the items.\<close>

lemma runLength_tagged:
  "runLength d compareTodos (snd p) (map snd xs) = runLength d tagCompare p xs"
  by (induction xs arbitrary: p) (simp_all add: tagCompare_def Let_def)

lemma countAndMakeRun_tagged:
  "countAndMakeRun compareTodos (map snd xs) =
     (map snd (fst (countAndMakeRun tagCompare xs)), snd (countAndMakeRun tagCompare xs))"
proof (cases xs)
  case Nil
  then show ?thesis by (simp add: countAndMakeRun_def)
next
  case (Cons a as)
  show ?thesis
  proof (cases as)
    case Nil
    with Cons show ?thesis by (simp add: countAndMakeRun_def)
  next
    case (Cons b rest)
    with \<open>xs = a # as\<close> have xs: "xs = a # b # rest" by simp
    have c: "(compareTodos (snd b) (snd a) < 0) = (tagCompare b a < 0)"
      by (simp add: tagCompare_def)
    show ?thesis
      by (simp add: countAndMakeRun_def xs Let_def runLength_tagged c
          rev_map take_map drop_map)
  qed
qed

lemma binarySearch_tagged:
  "right \<le> length ys \<Longrightarrow>
     binarySearch compareTodos (snd p) (map snd ys) left right =
     binarySearch tagCompare p ys left right"
proof (induction "tagCompare" p ys left right rule: binarySearch.induct)
  case (1 pivot ys left right)
  show ?case
  proof (cases "left < right")
    case True
    define mid where "mid = left + (right - left) div 2"
    from True have m: "mid < right" by (simp add: mid_def)
    with "1.prems" have ml: "mid < length ys" by simp
    have c: "compareTodos (snd pivot) (map snd ys ! mid) = tagCompare pivot (ys ! mid)"
      using ml by (simp add: tagCompare_def)
    show ?thesis
    proof (cases "tagCompare pivot (ys ! mid) < 0")
      case lt: True
      have "binarySearch compareTodos (snd pivot) (map snd ys) left mid =
          binarySearch tagCompare pivot ys left mid"
        by (rule "1.hyps"(1) [OF True mid_def refl lt]) (use ml in simp)
      moreover have "binarySearch tagCompare pivot ys left right =
          binarySearch tagCompare pivot ys left mid"
        by (subst binarySearch.simps) (use True lt in \<open>simp add: mid_def Let_def\<close>)
      moreover have "binarySearch compareTodos (snd pivot) (map snd ys) left right =
          binarySearch compareTodos (snd pivot) (map snd ys) left mid"
        by (subst binarySearch.simps) (use True lt c in \<open>simp add: mid_def Let_def\<close>)
      ultimately show ?thesis by simp
    next
      case ge: False
      have "binarySearch compareTodos (snd pivot) (map snd ys) (mid + 1) right =
          binarySearch tagCompare pivot ys (mid + 1) right"
        by (rule "1.hyps"(2) [OF True mid_def refl ge]) (rule "1.prems")
      moreover have "binarySearch tagCompare pivot ys left right =
          binarySearch tagCompare pivot ys (mid + 1) right"
        by (subst binarySearch.simps) (use True ge in \<open>simp add: mid_def Let_def\<close>)
      moreover have "binarySearch compareTodos (snd pivot) (map snd ys) left right =
          binarySearch compareTodos (snd pivot) (map snd ys) (mid + 1) right"
        by (subst binarySearch.simps) (use True ge c in \<open>simp add: mid_def Let_def\<close>)
      ultimately show ?thesis by simp
    qed
  next
    case False
    have "binarySearch tagCompare pivot ys left right = left"
      by (subst binarySearch.simps) (use False in simp)
    moreover have "binarySearch compareTodos (snd pivot) (map snd ys) left right = left"
      by (subst binarySearch.simps) (use False in simp)
    ultimately show ?thesis by simp
  qed
qed

lemma binaryInsertionSort_tagged:
  "binaryInsertionSort compareTodos (map snd s) (map snd r) =
     map snd (binaryInsertionSort tagCompare s r)"
proof (induction r arbitrary: s)
  case Nil
  then show ?case by simp
next
  case (Cons p r)
  define q where "q = binarySearch tagCompare p s 0 (length s)"
  have e: "binarySearch compareTodos (snd p) (map snd s) 0 (length s) = q"
    unfolding q_def by (rule binarySearch_tagged) simp
  have "map snd (take q s @ p # drop q s) = take q (map snd s) @ snd p # drop q (map snd s)"
    by (simp add: take_map drop_map)
  with Cons.IH [of "take q s @ p # drop q s"] show ?case
    by (simp add: Let_def e q_def [symmetric])
qed

lemma arraySort_tagged:
  "arraySort compareTodos (map snd xs) = map snd (arraySort tagCompare xs)"
proof (cases "length xs < 2")
  case True
  then show ?thesis by (simp add: arraySort_def)
next
  case False
  obtain w n where r: "countAndMakeRun tagCompare xs = (w, n)"
    by (cases "countAndMakeRun tagCompare xs")
  with countAndMakeRun_tagged [of xs]
  have r': "countAndMakeRun compareTodos (map snd xs) = (map snd w, n)" by simp
  from binaryInsertionSort_tagged [of "take n w" "drop n w"] False r r'
  show ?thesis by (simp add: arraySort_def take_map drop_map)
qed

lemma sortableStore_tagged:
  assumes "sortableStore todoList"
  shows "sortableTagged (set (enumerate 0 todoList))"
  unfolding sortableTagged_def
proof (intro ballI impI)
  fix x y z
  assume x: "x \<in> set (enumerate 0 todoList)" and y: "y \<in> set (enumerate 0 todoList)"
    and h: "fst x < fst y \<and> depth (snd x) = depth (snd y) \<and>
            priorityRank (snd y) < priorityRank (snd x)"
    and z: "z \<in> set (enumerate 0 todoList)" and b: "fst x < fst z \<and> fst z < fst y"
  from x have ex: "snd x = todoList ! fst x" by (simp add: in_set_enumerate_eq)
  from y have ey: "snd y = todoList ! fst y" and ly: "fst y < length todoList"
    by (simp_all add: in_set_enumerate_eq)
  from z have ez: "snd z = todoList ! fst z" by (simp add: in_set_enumerate_eq)
  from h have "depth (todoList ! fst x) = depth (todoList ! fst y) \<and>
      priorityOrder (priority (todoList ! fst y)) < priorityOrder (priority (todoList ! fst x))"
    unfolding ex ey priorityRank_def by blast
  moreover from h have "fst x < fst y" by blast
  moreover from b have "fst z \<in> {fst x<..<fst y}" by simp
  ultimately have "depth (todoList ! fst z) = depth (todoList ! fst x)"
    using assms ly unfolding sortableStore_def by blast
  then show "depth (snd z) = depth (snd x)" unfolding ex ez .
qed

lemma sortedTodos_tagged:
  "sortedTodos todoList = map snd (arraySort tagCompare (enumerate 0 todoList))"
proof -
  have "arraySort compareTodos (map snd (enumerate 0 todoList)) =
      map snd (arraySort tagCompare (enumerate 0 todoList))" by (rule arraySort_tagged)
  then show ?thesis by (simp add: sortedTodos_def)
qed

lemma enumerate_tags_sorted: "sorted_wrt (\<lambda>x y. fst x < fst y) (enumerate 0 todoList)"
proof -
  have "sorted_wrt (<) (map fst (enumerate 0 todoList))" by simp
  then show ?thesis by (simp only: sorted_wrt_map)
qed

lemma sortable_same_depth:
  assumes "sortableStore todoList"
  shows "sameDepthAscending (sortedTodos todoList)"
proof -
  define out where "out = arraySort tagCompare (enumerate 0 todoList)"
  have srt: "sorted_wrt placedBefore out"
    unfolding out_def
    by (rule arraySort_tagged_sorted [OF enumerate_tags_sorted sortableStore_tagged [OF assms]])
  have e: "sortedTodos todoList = map snd out" by (simp add: out_def sortedTodos_tagged)
  show ?thesis
    unfolding sameDepthAscending_def e
  proof (intro allI impI)
    fix j i
    assume j: "j < length (map snd out)" and i: "i < j"
      and d: "depth (map snd out ! i) = depth (map snd out ! j)"
    from j have jl: "j < length out" by simp
    with i have il: "i < length out" by simp
    from srt i jl have "placedBefore (out ! i) (out ! j)" by (rule sorted_wrt_nth_less)
    moreover from d il jl have "depth (snd (out ! i)) = depth (snd (out ! j))" by simp
    ultimately have "priorityRank (snd (out ! i)) \<le> priorityRank (snd (out ! j))"
      by (auto simp: placedBefore_def)
    with il jl show "priorityOrder (priority (map snd out ! i))
        \<le> priorityOrder (priority (map snd out ! j))"
      by (simp add: priorityRank_def)
  qed
qed

lemma sortable_cross_depth:
  assumes "sortableStore todoList"
  shows "crossDepthOrderKept todoList (sortedTodos todoList)"
proof -
  define ts where "ts = enumerate 0 todoList"
  define out where "out = arraySort tagCompare ts"
  have srt: "sorted_wrt placedBefore out"
    unfolding out_def ts_def
    by (rule arraySort_tagged_sorted [OF enumerate_tags_sorted sortableStore_tagged [OF assms]])
  have tg: "sorted_wrt (\<lambda>x y. fst x < fst y) ts" unfolding ts_def by (rule enumerate_tags_sorted)
  have e: "sortedTodos todoList = map snd out" by (simp add: out_def ts_def sortedTodos_tagged)
  have l: "todoList = map snd ts" by (simp add: ts_def)
  have sets: "set out = set ts" unfolding out_def by (rule set_arraySort)
  have "distinct (map fst ts)" by (simp add: ts_def)
  then have inj: "inj_on fst (set ts)" by (simp add: distinct_map)
  show ?thesis
    unfolding crossDepthOrderKept_def
  proof (intro ballI impI)
    fix a b :: todo
    assume ne: "depth a \<noteq> depth b"
    let ?Q = "\<lambda>x. snd x = a \<or> snd x = b"
    have qc: "(\<lambda>t. t = a \<or> t = b) \<circ> snd = ?Q" by (rule ext) simp
    have s1: "sorted_wrt (\<lambda>x y. fst x < fst y) (filter ?Q ts)"
      using tg by (rule sorted_wrt_filter)
    have "sorted_wrt placedBefore (filter ?Q out)" using srt by (rule sorted_wrt_filter)
    then have s2: "sorted_wrt (\<lambda>x y. fst x < fst y) (filter ?Q out)"
    proof (rule sorted_wrt_mono_rel [rotated])
      fix x y
      assume x: "x \<in> set (filter ?Q out)" and y: "y \<in> set (filter ?Q out)"
        and p: "placedBefore x y"
      from x have qx: "snd x = a \<or> snd x = b" by simp
      from y have qy: "snd y = a \<or> snd y = b" by simp
      show "fst x < fst y"
      proof (cases "snd x = snd y")
        case True
        with p show ?thesis by (simp add: placedBefore_def)
      next
        case False
        with qx qy ne have "depth (snd x) \<noteq> depth (snd y)" by metis
        with p show ?thesis by (simp add: placedBefore_def)
      qed
    qed
    have "map fst (filter ?Q out) = map fst (filter ?Q ts)"
    proof (rule strict_sorted_equal)
      show "sorted_wrt (<) (map fst (filter ?Q ts))" using s1 by (simp only: sorted_wrt_map)
      show "sorted_wrt (<) (map fst (filter ?Q out))" using s2 by (simp only: sorted_wrt_map)
      show "set (map fst (filter ?Q out)) = set (map fst (filter ?Q ts))" by (simp add: sets)
    qed
    moreover have "inj_on fst (set (filter ?Q out) \<union> set (filter ?Q ts))"
      by (rule inj_on_subset [OF inj]) (auto simp: sets)
    ultimately have "filter ?Q out = filter ?Q ts" by (simp only: inj_on_map_eq_map)
    then have "map snd (filter ?Q out) = map snd (filter ?Q ts)" by simp
    moreover have "filter (\<lambda>t. t = a \<or> t = b) (map snd out) = map snd (filter ?Q out)"
      by (simp only: filter_map qc)
    moreover have "filter (\<lambda>t. t = a \<or> t = b) (map snd ts) = map snd (filter ?Q ts)"
      by (simp only: filter_map qc)
    ultimately have "filter (\<lambda>t. t = a \<or> t = b) (map snd out) =
        filter (\<lambda>t. t = a \<or> t = b) (map snd ts)" by simp
    then show "filter (\<lambda>t. t = a \<or> t = b) (sortedTodos todoList) =
        filter (\<lambda>t. t = a \<or> t = b) todoList"
      unfolding e l [symmetric] .
  qed
qed

text \<open>Claim C4, amended. The view is a permutation of the store. On a sortable store, items sharing a depth come out in ascending priority rank, and any two items of differing depth keep the order they have in the store.\<close>

theorem sortedTodos_sortable_order:
  "mset (sortedTodos todoList) = mset todoList \<and>
   (sortableStore todoList \<longrightarrow>
      sameDepthAscending (sortedTodos todoList) \<and>
      crossDepthOrderKept todoList (sortedTodos todoList))"
proof -
  have "mset (sortedTodos todoList) = mset todoList"
    unfolding sortedTodos_def by (rule mset_arraySort)
  moreover have "sortableStore todoList \<longrightarrow>
      sameDepthAscending (sortedTodos todoList) \<and>
      crossDepthOrderKept todoList (sortedTodos todoList)"
    using sortable_same_depth sortable_cross_depth by blast
  ultimately show ?thesis by blast
qed

theorem sortedTodos_sortable_order_witness:
  "sortableStore rankedFamilyStore \<and>
   map todo_id (sortedTodos rankedFamilyStore) = [[1], [3], [2]] \<and>
   mset (sortedTodos rankedFamilyStore) = mset rankedFamilyStore \<and>
   sameDepthAscending (sortedTodos rankedFamilyStore) \<and>
   crossDepthOrderKept rankedFamilyStore (sortedTodos rankedFamilyStore)"
proof -
  have c: "sortableStore rankedFamilyStore"
    unfolding sortableStore_def rankedFamilyStore_def item_def
    by (auto simp: less_Suc_eq nth_Cons')
  have v: "map todo_id (sortedTodos rankedFamilyStore) = [[1], [3], [2]]" by code_simp
  from sortedTodos_sortable_order [of rankedFamilyStore] c v show ?thesis by blast
qed

text \<open>Claim C4 as stated fails: two depth-0 items with an item of depth 1 between them stay in their input order, low before emergency.\<close>

theorem sortedTodos_order_counterexample:
  "sortedTodos crossedStore = crossedStore \<and>
   depth (sortedTodos crossedStore ! 0) = depth (sortedTodos crossedStore ! 2) \<and>
   priorityOrder (priority (sortedTodos crossedStore ! 2)) <
     priorityOrder (priority (sortedTodos crossedStore ! 0))"
  by code_simp

lemma filter_one: "distinct xs \<Longrightarrow> y \<in> set xs \<Longrightarrow> filter (\<lambda>t. t = y) xs = [y]"
  by (induction xs) (auto simp: filter_empty_conv)

lemma filter_two:
  "distinct xs \<Longrightarrow> i < j \<Longrightarrow> j < length xs \<Longrightarrow>
     filter (\<lambda>t. t = xs ! i \<or> t = xs ! j) xs = [xs ! i, xs ! j]"
proof (induction xs arbitrary: i j)
  case Nil
  then show ?case by simp
next
  case (Cons z zs)
  from Cons.prems obtain j' where j: "j = Suc j'" and j'l: "j' < length zs"
    by (cases j) auto
  from Cons.prems have dz: "distinct zs" and zn: "z \<notin> set zs" by simp_all
  show ?case
  proof (cases i)
    case 0
    from j'l have mem: "zs ! j' \<in> set zs" by simp
    with zn have ne: "zs ! j' \<noteq> z" by blast
    have "filter (\<lambda>t. t = z \<or> t = zs ! j') zs = filter (\<lambda>t. t = zs ! j') zs"
      by (rule filter_cong) (use zn in auto)
    also have "\<dots> = [zs ! j']" using dz mem by (rule filter_one)
    finally show ?thesis by (simp add: 0 j)
  next
    case (Suc i')
    with Cons.prems j have i'j': "i' < j'" by simp
    with j'l have "zs ! i' \<in> set zs" "zs ! j' \<in> set zs" by simp_all
    with zn have "z \<noteq> zs ! i'" "z \<noteq> zs ! j'" by blast+
    with Cons.IH [OF dz i'j' j'l] show ?thesis by (simp add: Suc j)
  qed
qed

lemma filter_two_order:
  assumes "filter (\<lambda>t. t = x \<or> t = y) ys = [x, y]"
  shows "\<exists>i j. i < j \<and> j < length ys \<and> ys ! i = x \<and> ys ! j = y"
proof -
  from filter_eq_ConsD [OF assms] obtain us vs where
    ys: "ys = us @ x # vs" and f: "[y] = filter (\<lambda>t. t = x \<or> t = y) vs" by blast
  have "y \<in> set (filter (\<lambda>t. t = x \<or> t = y) vs)" by (simp add: f [symmetric])
  then have "y \<in> set vs" by simp
  then obtain k where k: "k < length vs" "vs ! k = y" by (auto simp: in_set_conv_nth)
  have "ys ! length us = x" by (simp add: ys)
  moreover have "ys ! (length us + Suc k) = y"
    unfolding ys by (simp only: nth_append_length_plus nth_Cons_Suc k)
  moreover have "length us + Suc k < length ys" using k by (simp add: ys)
  ultimately show ?thesis by (intro exI [of _ "length us"] exI [of _ "length us + Suc k"]) simp
qed

text \<open>On a store of distinct items \<open>sortableStore\<close> is all that can be asked: when it fails, no arrangement of the store meets both halves of the claim, whatever the sorting algorithm.\<close>

lemma order_needs_sortableStore:
  assumes d: "distinct todoList" and m: "mset ys = mset todoList"
    and asc: "sameDepthAscending ys" and kept: "crossDepthOrderKept todoList ys"
  shows "sortableStore todoList"
  unfolding sortableStore_def
proof (intro allI impI ballI)
  fix j i k
  assume j: "j < length todoList" and i: "i < j"
    and h: "depth (todoList ! i) = depth (todoList ! j) \<and>
       priorityOrder (priority (todoList ! j)) < priorityOrder (priority (todoList ! i))"
    and k: "k \<in> {i<..<j}"
  let ?a = "todoList ! i" and ?b = "todoList ! j" and ?c = "todoList ! k"
  from k have ik: "i < k" and kj: "k < j" by simp_all
  from kj j have kl: "k < length todoList" by simp
  from i j have il: "i < length todoList" by simp
  have mem: "?a \<in> set todoList" "?b \<in> set todoList" "?c \<in> set todoList"
    using il j kl by simp_all
  from m d have dy: "distinct ys" by (metis mset_eq_imp_distinct_iff)
  show "depth ?c = depth ?a"
  proof (rule ccontr)
    assume ne: "depth ?c \<noteq> depth ?a"
    then have ne1: "depth ?a \<noteq> depth ?c" by simp
    from ne h have ne2: "depth ?c \<noteq> depth ?b" by metis
    from kept mem(1,3) ne1 have "filter (\<lambda>t. t = ?a \<or> t = ?c) ys =
        filter (\<lambda>t. t = ?a \<or> t = ?c) todoList"
      unfolding crossDepthOrderKept_def by blast
    also have "\<dots> = [?a, ?c]" using d ik kl by (rule filter_two)
    finally have fa: "filter (\<lambda>t. t = ?a \<or> t = ?c) ys = [?a, ?c]" .
    from filter_two_order [OF fa] obtain p q
      where pq: "p < q" "q < length ys" "ys ! p = ?a" "ys ! q = ?c" by blast
    from kept mem(3,2) ne2 have "filter (\<lambda>t. t = ?c \<or> t = ?b) ys =
        filter (\<lambda>t. t = ?c \<or> t = ?b) todoList"
      unfolding crossDepthOrderKept_def by blast
    also have "\<dots> = [?c, ?b]" using d kj j by (rule filter_two)
    finally have fb: "filter (\<lambda>t. t = ?c \<or> t = ?b) ys = [?c, ?b]" .
    from filter_two_order [OF fb] obtain q' r
      where qr: "q' < r" "r < length ys" "ys ! q' = ?c" "ys ! r = ?b" by blast
    from qr have q'l: "q' < length ys" by simp
    from pq(4) qr(3) have "ys ! q = ys ! q'" by simp
    with dy pq(2) q'l have "q = q'" by (metis nth_eq_iff_index_eq)
    with pq qr have pr: "p < r" by simp
    from h have dd: "depth (ys ! p) = depth (ys ! r)" unfolding pq(3) qr(4) by blast
    from asc qr(2) pr dd have "priorityOrder (priority (ys ! p)) \<le> priorityOrder (priority (ys ! r))"
      unfolding sameDepthAscending_def by blast
    with h show False unfolding pq(3) qr(4) by simp
  qed
qed

lemma crossedStore_unsortable:
  assumes "mset ys = mset crossedStore" "crossDepthOrderKept crossedStore ys"
  shows "\<not> sameDepthAscending ys"
proof
  assume "sameDepthAscending ys"
  have "distinct crossedStore" by (simp add: crossedStore_def item_def)
  from order_needs_sortableStore [OF this assms(1) \<open>sameDepthAscending ys\<close> assms(2)]
  have "sortableStore crossedStore" .
  then have "\<And>j i. j < length crossedStore \<Longrightarrow> i < j \<Longrightarrow>
      depth (crossedStore ! i) = depth (crossedStore ! j) \<and>
      priorityOrder (priority (crossedStore ! j)) < priorityOrder (priority (crossedStore ! i)) \<Longrightarrow>
      \<forall>k\<in>{i<..<j}. depth (crossedStore ! k) = depth (crossedStore ! i)"
    unfolding sortableStore_def by blast
  from this [of 2 0] have "\<forall>k\<in>{0<..<2::nat}. depth (crossedStore ! k) = depth (crossedStore ! 0)"
    by (simp add: crossedStore_def item_def)
  then have "depth (crossedStore ! 1) = depth (crossedStore ! 0)" by simp
  then show False by (simp add: crossedStore_def item_def)
qed

subsection \<open>A toggle of an id that is not in the store\<close>

text \<open>For an id that no item of the store carries, \<open>findIndex\<close> gives \<open>-1\<close> and the read of \<open>clickedTodo.completed\<close> raises before \<open>setTodos\<close> is reached.\<close>

lemma toggleTodo_absent_id:
  assumes "\<forall>t\<in>set todoList. todo_id t \<noteq> ident"
  shows "toggleTodo todoList ident = Inl TypeError"
proof -
  from assms have "findIndex (\<lambda>t. todo_id t = ident) todoList < 0"
    by (simp add: findIndex_absent)
  then show ?thesis by (simp add: toggleTodo_def)
qed

text \<open>A click on the checkbox of a rendered item (line 268) passes the id of an item of the store, so the call returns.\<close>

lemma toggleTodo_rendered_id:
  assumes "t \<in> set (sortedTodos todoList)"
  shows "\<exists>updated. toggleTodo todoList (todo_id t) = Inr updated"
proof -
  from assms have "t \<in> set todoList" by (simp add: sortedTodos_def set_arraySort)
  then have "\<not> findIndex (\<lambda>u. todo_id u = todo_id t) todoList < 0"
    by (auto simp: findIndex_absent)
  then show ?thesis by (simp add: toggleTodo_def)
qed

subsection \<open>The downward cascade\<close>

lemma cov_bounds: "cov ds pd i j \<Longrightarrow> i \<le> j \<and> j < length ds"
  by (induction rule: cov.induct) (auto simp: isChildIdx_def)

lemma cov_first_deeper: "cov ds pd i j \<Longrightarrow> pd < ds ! i"
proof (induction rule: cov.induct)
  case (first i k pd)
  then show ?case by (cases "k = i") auto
next
  case (deeper pd i k j)
  then show ?case by simp
qed

lemma cov_skip: "cov ds pd i j \<Longrightarrow> ds ! i \<noteq> pd + 1 \<Longrightarrow> cov ds pd (Suc i) j"
proof (induction rule: cov.induct)
  case (first i k pd)
  then have "k \<noteq> i" by auto
  with first show ?case by (intro cov.first) auto
next
  case (deeper pd i k j)
  then show ?case by (blast intro: cov.deeper)
qed

lemma cov_split:
  "cov ds pd i j \<Longrightarrow> ds ! i = pd + 1 \<Longrightarrow>
     j = i \<or> cov ds (pd + 1) (Suc i) j \<or> cov ds pd (Suc i) j"
proof (induction rule: cov.induct)
  case (first i k pd)
  show ?case
  proof (cases "k = i")
    case True
    then show ?thesis by simp
  next
    case False
    with first have "cov ds pd (Suc i) k" by (intro cov.first) auto
    then show ?thesis by simp
  qed
next
  case (deeper pd i k j)
  from deeper.IH [OF deeper.prems]
  consider "k = i" | "cov ds (pd + 1) (Suc i) k" | "cov ds pd (Suc i) k" by blast
  then show ?case
  proof cases
    case 1
    with deeper.hyps(2) deeper.prems have "cov ds (pd + 1) (Suc i) j"
      by (intro cov.first) (auto simp: isChildIdx_def)
    then show ?thesis by simp
  next
    case 2
    with deeper.hyps(2) show ?thesis by (blast intro: cov.deeper)
  next
    case 3
    with deeper.hyps(2) show ?thesis by (blast intro: cov.deeper)
  qed
qed

lemma map_depth_update:
  "map depth (l[i := (l ! i)\<lparr>completed := c\<rparr>]) = map depth l"
proof (cases "i < length l")
  case True
  then show ?thesis by (simp add: map_update list_update_same_conv)
next
  case False
  then show ?thesis by (simp add: list_update_beyond)
qed

lemma ucc_loop_depths: "map depth (ucc_loop l p i c) = map depth l"
  using map_erase_depth [OF ucc_loop_erase] .

lemma ucc_loop_cov:
  "cov (map depth l) (depth p) i j \<Longrightarrow> completed (ucc_loop l p i True ! j)"
proof (induction l p i "True" arbitrary: j rule: ucc_loop.induct)
  case (1 l p i)
  from cov_bounds [OF "1.prems"] have ij: "i \<le> j" "j < length l" by simp_all
  then have il: "i < length l" by simp
  from cov_first_deeper [OF "1.prems"] il have dp: "\<not> depth (l ! i) \<le> depth p" by simp
  show ?case
  proof (cases "depth (l ! i) = depth p + 1")
    case True
    define l' where "l' = l[i := (l ! i)\<lparr>completed := True\<rparr>]"
    define l'' where "l'' = ucc_loop l' (l' ! i) (i + 1) True"
    have res: "ucc_loop l p i True = ucc_loop l'' p (i + 1) True"
      by (subst ucc_loop.simps) (simp add: il dp True l'_def l''_def Let_def)
    have d': "map depth l' = map depth l" by (simp add: l'_def map_depth_update)
    have d'': "map depth l'' = map depth l" by (simp add: l''_def ucc_loop_depths d')
    have len: "length l' = length l" "length l'' = length l" by (simp_all add: l'_def l''_def)
    have di: "depth (l' ! i) = depth p + 1" using True il by (simp add: l'_def)
    from "1.prems" True il have "map depth l ! i = depth p + 1" by simp
    from cov_split [OF "1.prems" this]
    consider "j = i" | "cov (map depth l) (depth p + 1) (Suc i) j"
      | "cov (map depth l) (depth p) (Suc i) j" by blast
    then show ?thesis
    proof cases
      case 1
      have "ucc_loop l'' p (i + 1) True ! i = l'' ! i" by (simp add: ucc_loop_below)
      also have "\<dots> = l' ! i" by (simp add: l''_def ucc_loop_below)
      finally show ?thesis using 1 il by (simp add: res l'_def)
    next
      case 2
      then have "cov (map depth l') (depth (l' ! i)) (i + 1) j" by (simp add: d' di)
      with "1.hyps"(1) [OF il dp True l'_def] have "completed (l'' ! j)"
        by (simp add: l''_def)
      then show ?thesis using ij len by (simp add: res ucc_loop_mono)
    next
      case 3
      then have "cov (map depth (if True then ucc_loop l' (l' ! i) (i + 1) True else l'))
          (depth p) (i + 1) j" using d'' by (simp add: l''_def)
      with "1.hyps"(2) [OF il dp True l'_def] show ?thesis by (simp add: res l''_def)
    qed
  next
    case False
    have res: "ucc_loop l p i True = ucc_loop l p (i + 1) True"
      by (subst ucc_loop.simps) (use il dp False in simp)
    from "1.prems" False il have "cov (map depth l) (depth p) (Suc i) j"
      by (intro cov_skip) simp_all
    with "1.hyps"(3) [OF il dp False] show ?thesis by (simp add: res)
  qed
qed

lemma childrenOf_nth:
  "c \<in> set (childrenOf pd xs) \<Longrightarrow>
     \<exists>k<length xs. c = xs ! k \<and> depth (xs ! k) = pd + 1 \<and> (\<forall>m<k. pd < depth (xs ! m))"
proof (induction xs)
  case Nil
  then show ?case by simp
next
  case (Cons t ts)
  show ?case
  proof (cases "depth t \<le> pd")
    case True
    with Cons.prems show ?thesis by simp
  next
    case deeper: False
    show ?thesis
    proof (cases "c = t \<and> depth t = pd + 1")
      case True
      then have "0 < length (t # ts) \<and> c = (t # ts) ! 0 \<and> depth ((t # ts) ! 0) = pd + 1 \<and>
          (\<forall>m<0. pd < depth ((t # ts) ! m))" by simp
      then show ?thesis by blast
    next
      case False
      with Cons.prems deeper have "c \<in> set (childrenOf pd ts)" by (auto split: if_splits)
      from Cons.IH [OF this] obtain k where k: "k < length ts" "c = ts ! k"
        "depth (ts ! k) = pd + 1" "\<forall>m<k. pd < depth (ts ! m)" by blast
      have "\<forall>m<Suc k. pd < depth ((t # ts) ! m)"
      proof (intro allI impI)
        fix m assume "m < Suc k"
        then show "pd < depth ((t # ts) ! m)" using deeper k(4) by (cases m) simp_all
      qed
      with k have "Suc k < length (t # ts) \<and> c = (t # ts) ! Suc k \<and>
          depth ((t # ts) ! Suc k) = pd + 1 \<and> (\<forall>m<Suc k. pd < depth ((t # ts) ! m))" by simp
      then show ?thesis by blast
    qed
  qed
qed

lemma children_are_child_idx:
  assumes "i < length l" "c \<in> set (getDirectChildren l i)"
  shows "\<exists>k. isChildIdx (map depth l) i k \<and> c = l ! k"
proof -
  from assms(2) have "c \<in> set (childrenOf (depth (l ! i)) (drop (Suc i) l))"
    by (simp add: getDirectChildren_eq)
  from childrenOf_nth [OF this] obtain k where k: "k < length l - Suc i"
    "c = drop (Suc i) l ! k" "depth (drop (Suc i) l ! k) = depth (l ! i) + 1"
    "\<forall>m<k. depth (l ! i) < depth (drop (Suc i) l ! m)" by auto
  have lt: "Suc i + k < length l" using k(1) by simp
  have dk: "map depth l ! (Suc i + k) = map depth l ! i + 1" using k(3) lt assms(1) by simp
  have between: "\<forall>m\<in>{i<..<Suc i + k}. map depth l ! i < map depth l ! m"
  proof
    fix m assume "m \<in> {i<..<Suc i + k}"
    then have "i < m" "m < Suc i + k" by simp_all
    then have m: "m - Suc i < k" "Suc i + (m - Suc i) = m" "m < length l" using lt by linarith+
    from k(4) m(1) have "depth (l ! i) < depth (drop (Suc i) l ! (m - Suc i))" by blast
    also have "drop (Suc i) l ! (m - Suc i) = l ! (Suc i + (m - Suc i))"
      using assms(1) by (intro nth_drop) simp
    finally show "map depth l ! i < map depth l ! m" using m assms(1) by simp
  qed
  have "isChildIdx (map depth l) i (Suc i + k)"
    unfolding isChildIdx_def using lt dk between by simp
  moreover from k lt have "c = l ! (Suc i + k)" by simp
  ultimately show ?thesis by blast
qed

lemma upc_step_depths: "map depth (upc_step l n) = map depth l"
  by (rule nth_equalityI) (simp_all add: upc_step_depth)

lemma upc_step_keeps:
  assumes closed: "\<And>p k. p \<in> S \<Longrightarrow> isChildIdx (map depth l) p k \<Longrightarrow> k \<in> S"
    and fin: "\<And>j. j \<in> S \<Longrightarrow> j < length l \<and> completed (l ! j)"
    and j: "j \<in> S"
  shows "completed (upc_step l n ! j)"
proof (cases "j = n")
  case True
  have "completed c" if "c \<in> set (getDirectChildren l n)" for c
  proof -
    from j True fin have "n < length l" by blast
    from children_are_child_idx [OF this that] obtain k where
      k: "isChildIdx (map depth l) n k" "c = l ! k" by blast
    from closed [OF _ k(1)] j True have "k \<in> S" by simp
    with fin k(2) show ?thesis by blast
  qed
  then have "list_all completed (getDirectChildren l n)" by (simp add: list_all_iff)
  moreover from fin j True have "completed (l ! n)" by blast
  ultimately have "upc_step l n = l" by (simp add: upc_step_def Let_def list_ex_not_all)
  with fin j show ?thesis by simp
next
  case False
  with fin j show ?thesis by (simp add: upc_step_other)
qed

lemma upc_loop_keeps:
  assumes closed: "\<And>p k. p \<in> S \<Longrightarrow> isChildIdx (map depth l) p k \<Longrightarrow> k \<in> S"
    and fin: "\<And>j. j \<in> S \<Longrightarrow> j < length l \<and> completed (l ! j)"
    and j: "j \<in> S"
  shows "completed (upc_loop l n ! j)"
  using closed fin
proof (induction n arbitrary: l)
  case 0
  with j show ?case by simp
next
  case (Suc n)
  have "completed (upc_loop (upc_step l n) n ! j)"
  proof (rule Suc.IH)
    fix p k assume "p \<in> S" "isChildIdx (map depth (upc_step l n)) p k"
    then show "k \<in> S" using Suc.prems(1) by (simp add: upc_step_depths)
  next
    fix j' assume j': "j' \<in> S"
    have "completed (upc_step l n ! j')"
      by (rule upc_step_keeps [of S]) (use Suc.prems j' in blast)+
    with Suc.prems(2) [OF j'] show "j' < length (upc_step l n) \<and> completed (upc_step l n ! j')"
      by simp
  qed
  then show ?case by simp
qed

lemma last_shallower:
  "i \<le> u \<Longrightarrow> (ds :: nat list) ! i < v \<Longrightarrow>
     \<exists>m. i \<le> m \<and> m \<le> u \<and> ds ! m < v \<and> (\<forall>k. m < k \<and> k \<le> u \<longrightarrow> v \<le> ds ! k)"
proof (induction u)
  case 0
  then have "i \<le> 0 \<and> (0::nat) \<le> 0 \<and> ds ! 0 < v \<and> (\<forall>k. 0 < k \<and> k \<le> 0 \<longrightarrow> v \<le> ds ! k)"
    by simp
  then show ?case by blast
next
  case (Suc u)
  show ?case
  proof (cases "ds ! Suc u < v")
    case True
    with Suc.prems have "i \<le> Suc u \<and> Suc u \<le> Suc u \<and> ds ! Suc u < v \<and>
        (\<forall>k. Suc u < k \<and> k \<le> Suc u \<longrightarrow> v \<le> ds ! k)" by auto
    then show ?thesis by blast
  next
    case False
    with Suc.prems have "i \<noteq> Suc u" by auto
    with Suc.prems have "i \<le> u" by simp
    from Suc.IH [OF this Suc.prems(2)] obtain m where m: "i \<le> m" "m \<le> u" "ds ! m < v"
      "\<forall>k. m < k \<and> k \<le> u \<longrightarrow> v \<le> ds ! k" by blast
    have "\<forall>k. m < k \<and> k \<le> Suc u \<longrightarrow> v \<le> ds ! k"
    proof (intro allI impI)
      fix k assume k: "m < k \<and> k \<le> Suc u"
      show "v \<le> ds ! k"
      proof (cases "k = Suc u")
        case True
        with False show ?thesis by simp
      next
        case False
        with k m(4) show ?thesis by simp
      qed
    qed
    with m have "i \<le> m \<and> m \<le> Suc u \<and> ds ! m < v \<and> (\<forall>k. m < k \<and> k \<le> Suc u \<longrightarrow> v \<le> ds ! k)"
      by simp
    then show ?thesis by blast
  qed
qed

lemma jump_free_chained:
  "inRun ds i j \<Longrightarrow> noDepthJump ds i j \<Longrightarrow> chained ds i j"
proof (induction j rule: less_induct)
  case (less j)
  from less.prems(1) have ij: "i < j" "j < length ds" and run: "\<forall>k\<in>{i<..j}. ds ! i < ds ! k"
    by (simp_all add: inRun_def)
  from ij run have "ds ! i < ds ! j" by simp
  with ij have "\<exists>m. i \<le> m \<and> m \<le> j - 1 \<and> ds ! m < ds ! j \<and>
      (\<forall>k. m < k \<and> k \<le> j - 1 \<longrightarrow> ds ! j \<le> ds ! k)"
    by (intro last_shallower) simp_all
  then obtain m where m: "i \<le> m" "m \<le> j - 1" "ds ! m < ds ! j"
    "\<forall>k. m < k \<and> k \<le> j - 1 \<longrightarrow> ds ! j \<le> ds ! k" by blast
  from m ij have mj: "m < j" by simp
  have ge: "ds ! j \<le> ds ! Suc m"
  proof (cases "Suc m = j")
    case True
    then show ?thesis by simp
  next
    case False
    with mj m(4) show ?thesis by simp
  qed
  from m(1) mj have "Suc m \<in> {i<..j}" by simp
  with less.prems(2) have "ds ! Suc m \<le> ds ! (Suc m - 1) + 1"
    unfolding noDepthJump_def by blast
  then have "ds ! Suc m \<le> ds ! m + 1" by simp
  with ge m(3) have link: "ds ! j = ds ! m + 1" by simp
  have above: "ds ! m < ds ! k" if "m < k" "k < j" for k
  proof -
    from that m(4) have "ds ! j \<le> ds ! k" by simp
    with m(3) show ?thesis by simp
  qed
  show ?case
  proof (cases "m = i")
    case True
    have "cov ds (ds ! i) (Suc i) j"
      by (rule cov.first) (use ij link True above in simp_all)
    then show ?thesis by (simp add: chained_def)
  next
    case False
    with m(1) have im: "i < m" by simp
    have "inRun ds i m" using im mj ij run by (simp add: inRun_def)
    moreover have "noDepthJump ds i m" using less.prems(2) mj by (simp add: noDepthJump_def)
    ultimately have "chained ds i m" using less.IH [OF mj] by blast
    moreover have "isChildIdx ds m j" using mj ij link above by (simp add: isChildIdx_def)
    ultimately show ?thesis unfolding chained_def by (rule cov.deeper)
  qed
qed

lemma toggleDownward_target:
  assumes "k < length l" "\<not> completed (l ! k)"
  shows "completed (toggleDownward l k ! k)"
  using assms
  by (simp add: toggleDownward_def Let_def updateChildrenCompletion_def ucc_loop_below)

lemma toggleDownward_chained:
  assumes "k < length l" "\<not> completed (l ! k)" "chained (map depth l) k j"
  shows "completed (toggleDownward l k ! j)"
proof -
  let ?l' = "l[k := (l ! k)\<lparr>completed := True\<rparr>]"
  have d: "map depth ?l' = map depth l" by (rule map_depth_update)
  from assms(3) have "cov (map depth ?l') (depth (?l' ! k)) (k + 1) j"
    using assms(1) by (simp add: d chained_def)
  then have "completed (ucc_loop ?l' (?l' ! k) (k + 1) True ! j)" by (rule ucc_loop_cov)
  then show ?thesis using assms(1,2)
    by (simp add: toggleDownward_def Let_def updateChildrenCompletion_def)
qed

lemma toggleDownward_depths: "map depth (toggleDownward l k) = map depth l"
  by (simp add: toggleDownward_def Let_def updateChildrenCompletion_def ucc_loop_depths
      map_depth_update)

lemma toggleDownward_length [simp]: "length (toggleDownward l k) = length l"
  using toggleDownward_depths [of l k] by (metis length_map)

lemma toggleTodo_result:
  assumes "toggleTodo l ident = Inr u" "k = nat (findIndex (\<lambda>t. todo_id t = ident) l)"
  shows "k < length l \<and> u = upc_loop (toggleDownward l k) (length l)"
proof -
  from assms(1) have nn: "\<not> findIndex (\<lambda>t. todo_id t = ident) l < 0"
    by (auto simp: toggleTodo_def Let_def split: if_splits)
  then have "k < length l" using findIndex_present assms(2) by blast
  moreover from assms nn have "u = upc_loop (toggleDownward l k) (length l)"
    by (auto simp: toggleTodo_def Let_def updateParentCompletion_def)
  ultimately show ?thesis by simp
qed

text \<open>Claim C1, amended. When a toggle turns the target's flag to true, the target and every item that hangs on it through a chain of direct children are completed in the result; these are all items of the run up to which no item is more than one level deeper than the item before it.\<close>

theorem toggle_completes_chained_descendants:
  assumes "toggleTodo todoList ident = Inr updated"
    and "k = nat (findIndex (\<lambda>t. todo_id t = ident) todoList)"
    and "\<not> completed (todoList ! k)"
  shows "completed (updated ! k) \<and>
         (\<forall>j. chained (map depth todoList) k j \<longrightarrow> completed (updated ! j)) \<and>
         (\<forall>j. inRun (map depth todoList) k j \<and> noDepthJump (map depth todoList) k j \<longrightarrow>
              completed (updated ! j))"
proof -
  let ?ds = "map depth todoList"
  let ?d = "toggleDownward todoList k"
  let ?S = "insert k {j. chained ?ds k j}"
  from toggleTodo_result [OF assms(1,2)]
  have k: "k < length todoList" and u: "updated = upc_loop ?d (length todoList)" by simp_all
  have keep: "completed (updated ! j)" if "j \<in> ?S" for j
    unfolding u
  proof (rule upc_loop_keeps [of ?S])
    fix p q assume p: "p \<in> ?S" and c: "isChildIdx (map depth ?d) p q"
    then have c': "isChildIdx ?ds p q" by (simp add: toggleDownward_depths)
    show "q \<in> ?S"
    proof (cases "p = k")
      case True
      with c' have "cov ?ds (?ds ! k) (Suc k) q"
        by (intro cov.first) (auto simp: isChildIdx_def)
      then show ?thesis by (simp add: chained_def)
    next
      case False
      with p have "cov ?ds (?ds ! k) (Suc k) p" by (simp add: chained_def)
      from cov.deeper [OF this c'] show ?thesis by (simp add: chained_def)
    qed
  next
    fix j assume "j \<in> ?S"
    then consider "j = k" | "chained ?ds k j" by blast
    then show "j < length ?d \<and> completed (?d ! j)"
    proof cases
      case 1
      with k assms(3) show ?thesis by (simp add: toggleDownward_target)
    next
      case 2
      then have "j < length todoList" using cov_bounds [of ?ds _ _ j] by (simp add: chained_def)
      with 2 k assms(3) show ?thesis by (simp add: toggleDownward_chained)
    qed
  next
    show "j \<in> ?S" by (rule that)
  qed
  have a: "completed (updated ! k)" by (rule keep) simp
  have b: "\<forall>j. chained ?ds k j \<longrightarrow> completed (updated ! j)" using keep by simp
  have c: "\<forall>j. inRun ?ds k j \<and> noDepthJump ?ds k j \<longrightarrow> completed (updated ! j)"
    using b jump_free_chained by blast
  from a b c show ?thesis by blast
qed

text \<open>The store of the counterexample below arises from the keyboard: an item at depth 0, Tab twice, an item at depth 2.\<close>

lemma orphanStore_reachable:
  "todos (run emptyState [Change [65], KeyDown enterKey 1, KeyDown tabKey 1, KeyDown tabKey 1,
                          Change [65], KeyDown enterKey 2]) = orphanStore"
  by (simp add: run_def emptyState_def enterKey_def tabKey_def handleKeyDown_def addTodo_def
      trim_def isWhiteSpace_def numberToString_def natDigits.simps orphanStore_def item_def)

text \<open>Claim C1 as stated fails: an item of depth 2 right after a target of depth 0 is in the target's run, and the cascade, which only follows items exactly one level deeper, leaves it incomplete.\<close>

theorem toggle_skipped_level_counterexample:
  "toggleTodo orphanStore [49] = Inr [item 49 True 0 Normal, item 50 False 2 Normal] \<and>
   nat (findIndex (\<lambda>t. todo_id t = [49]) orphanStore) = 0 \<and>
   \<not> completed (orphanStore ! 0) \<and>
   completed ([item 49 True 0 Normal, item 50 False 2 Normal] ! 0) \<and>
   inRun (map depth orphanStore) 0 1 \<and>
   \<not> completed ([item 49 True 0 Normal, item 50 False 2 Normal] ! 1)"
proof -
  have "toggleTodo orphanStore [49] = Inr [item 49 True 0 Normal, item 50 False 2 Normal]"
    by code_simp
  moreover have "nat (findIndex (\<lambda>t. todo_id t = [49]) orphanStore) = 0"
    by (simp add: findIndex_def orphanStore_def item_def)
  moreover have "inRun (map depth orphanStore) 0 1"
    by (simp add: inRun_def orphanStore_def item_def)
  ultimately show ?thesis by (simp add: orphanStore_def item_def)
qed

theorem toggle_completes_chained_descendants_witness:
  "toggleTodo nestedStore [1] =
     Inr [item 1 True 0 Normal, item 2 True 1 Normal, item 3 True 2 Normal,
          item 4 True 1 Normal, item 5 False 0 Normal] \<and>
   0 = nat (findIndex (\<lambda>t. todo_id t = [1]) nestedStore) \<and>
   \<not> completed (nestedStore ! 0) \<and>
   chained (map depth nestedStore) 0 2 \<and>
   inRun (map depth nestedStore) 0 3 \<and> noDepthJump (map depth nestedStore) 0 3 \<and>
   completed ([item 1 True 0 Normal, item 2 True 1 Normal, item 3 True 2 Normal,
          item 4 True 1 Normal, item 5 False 0 Normal] ! 0) \<and>
   completed ([item 1 True 0 Normal, item 2 True 1 Normal, item 3 True 2 Normal,
          item 4 True 1 Normal, item 5 False 0 Normal] ! 2) \<and>
   completed ([item 1 True 0 Normal, item 2 True 1 Normal, item 3 True 2 Normal,
          item 4 True 1 Normal, item 5 False 0 Normal] ! 3)"
proof -
  let ?r = "[item 1 True 0 Normal, item 2 True 1 Normal, item 3 True 2 Normal,
          item 4 True 1 Normal, item 5 False 0 Normal]"
  have h: "toggleTodo nestedStore [1] = Inr ?r" by code_simp
  have k: "0 = nat (findIndex (\<lambda>t. todo_id t = [1]) nestedStore)"
    by (simp add: findIndex_def nestedStore_def item_def)
  have n: "\<not> completed (nestedStore ! 0)" by (simp add: nestedStore_def item_def)
  have ds: "map depth nestedStore = [0, 1, 2, 1, 0]" by (simp add: nestedStore_def item_def)
  have "cov [0, 1, 2, 1, 0] 0 (Suc 0) 1" by (rule cov.first) simp_all
  moreover have "isChildIdx [0, 1, 2, 1, 0] 1 2" by (simp add: isChildIdx_def)
  ultimately have "cov [0, 1, 2, 1, 0] 0 (Suc 0) 2" by (rule cov.deeper)
  then have c: "chained (map depth nestedStore) 0 2" by (simp add: chained_def ds)
  have "\<forall>k\<in>{0<..3::nat}. [0, 1, 2, 1, 0::nat] ! 0 < [0, 1, 2, 1, 0] ! k"
  proof
    fix k :: nat assume "k \<in> {0<..3}"
    then have "k = 1 \<or> k = 2 \<or> k = 3" by auto
    then show "[0, 1, 2, 1, 0::nat] ! 0 < [0, 1, 2, 1, 0] ! k" by auto
  qed
  then have r: "inRun (map depth nestedStore) 0 3" by (simp add: inRun_def ds)
  have "\<forall>k\<in>{0<..3::nat}. [0, 1, 2, 1, 0::nat] ! k \<le> [0, 1, 2, 1, 0] ! (k - 1) + 1"
  proof
    fix k :: nat assume "k \<in> {0<..3}"
    then have "k = 1 \<or> k = 2 \<or> k = 3" by auto
    then show "[0, 1, 2, 1, 0::nat] ! k \<le> [0, 1, 2, 1, 0] ! (k - 1) + 1" by auto
  qed
  then have j: "noDepthJump (map depth nestedStore) 0 3" by (simp add: noDepthJump_def ds)
  note T = toggle_completes_chained_descendants [OF h k n]
  from T have a: "completed (?r ! 0)" by blast
  from T c have b: "completed (?r ! 2)" by blast
  from T r j have d: "completed (?r ! 3)" by blast
  from h k n c r j a b d show ?thesis by blast
qed

subsection \<open>Un-completion\<close>

lemma child_in_run: "isChildIdx ds p q \<Longrightarrow> inRun ds p q"
proof -
  assume c: "isChildIdx ds p q"
  have "\<forall>k\<in>{p<..q}. ds ! p < ds ! k"
  proof
    fix k assume k: "k \<in> {p<..q}"
    show "ds ! p < ds ! k"
    proof (cases "k = q")
      case True
      with c show ?thesis by (simp add: isChildIdx_def)
    next
      case False
      with k have "k \<in> {p<..<q}" by simp
      with c show ?thesis unfolding isChildIdx_def by blast
    qed
  qed
  with c show ?thesis by (simp add: inRun_def isChildIdx_def)
qed

lemma run_child_in_run: "inRun ds s p \<Longrightarrow> isChildIdx ds p q \<Longrightarrow> inRun ds s q"
proof -
  assume r: "inRun ds s p" and c: "isChildIdx ds p q"
  from r have sp: "s < p" "ds ! s < ds ! p" and rr: "\<forall>k\<in>{s<..p}. ds ! s < ds ! k"
    by (simp_all add: inRun_def)
  from child_in_run [OF c] have pq: "p < q" "q < length ds"
    and cc: "\<forall>k\<in>{p<..q}. ds ! p < ds ! k" by (simp_all add: inRun_def)
  have "\<forall>k\<in>{s<..q}. ds ! s < ds ! k"
  proof
    fix k assume k: "k \<in> {s<..q}"
    show "ds ! s < ds ! k"
    proof (cases "k \<le> p")
      case True
      with k have "k \<in> {s<..p}" by simp
      with rr show ?thesis by blast
    next
      case False
      with k have "k \<in> {p<..q}" by simp
      with cc have "ds ! p < ds ! k" by blast
      with sp(2) show ?thesis by simp
    qed
  qed
  with sp pq show ?thesis by (simp add: inRun_def)
qed

text \<open>Claim C3, amended. When a toggle turns the target's flag to false, the downward pass changes no other item; and a completed sibling of the target whose own descendant run is completed throughout is still completed in the result.\<close>

theorem untoggle_keeps_others:
  assumes "toggleTodo todoList ident = Inr updated"
    and "k = nat (findIndex (\<lambda>t. todo_id t = ident) todoList)"
    and "completed (todoList ! k)"
  shows "(\<forall>j. j \<noteq> k \<longrightarrow> toggleDownward todoList k ! j = todoList ! j) \<and>
         (\<forall>s. isSibling (map depth todoList) s k \<and> completed (todoList ! s) \<and>
              runCompleted todoList s \<longrightarrow> completed (updated ! s))"
proof -
  let ?ds = "map depth todoList"
  let ?d = "toggleDownward todoList k"
  from toggleTodo_result [OF assms(1,2)]
  have k: "k < length todoList" and u: "updated = upc_loop ?d (length todoList)" by simp_all
  have d: "?d = todoList[k := (todoList ! k)\<lparr>completed := False\<rparr>]"
    using assms(3) k by (simp add: toggleDownward_def Let_def)
  have a: "\<forall>j. j \<noteq> k \<longrightarrow> ?d ! j = todoList ! j" by (simp add: d)
  have b: "completed (updated ! s)"
    if sib: "isSibling ?ds s k" and cs: "completed (todoList ! s)" and rc: "runCompleted todoList s"
    for s
  proof -
    let ?S = "insert s {j. inRun ?ds s j}"
    from sib have sk: "s \<noteq> k" "s < length todoList" "?ds ! s = ?ds ! k"
      by (simp_all add: isSibling_def)
    then have "\<not> inRun ?ds s k" by (auto simp: inRun_def)
    with sk have notin: "k \<notin> ?S" by simp
    show ?thesis
      unfolding u
    proof (rule upc_loop_keeps [of ?S])
      fix p q assume p: "p \<in> ?S" and c: "isChildIdx (map depth ?d) p q"
      then have c': "isChildIdx ?ds p q" by (simp add: toggleDownward_depths)
      from p consider "p = s" | "inRun ?ds s p" by blast
      then show "q \<in> ?S"
      proof cases
        case 1
        with child_in_run [OF c'] show ?thesis by simp
      next
        case 2
        from run_child_in_run [OF this c'] show ?thesis by simp
      qed
    next
      fix j assume j: "j \<in> ?S"
      with notin have jk: "j \<noteq> k" by blast
      from j consider "j = s" | "inRun ?ds s j" by blast
      then have "j < length todoList \<and> completed (todoList ! j)"
      proof cases
        case 1
        with sk cs show ?thesis by simp
      next
        case 2
        then have "j \<in> {s<..<length todoList}" by (simp add: inRun_def)
        with rc 2 have "completed (todoList ! j)" unfolding runCompleted_def by blast
        with 2 show ?thesis by (simp add: inRun_def)
      qed
      with jk a show "j < length ?d \<and> completed (?d ! j)" by simp
    next
      show "s \<in> ?S" by simp
    qed
  qed
  from a b show ?thesis by blast
qed

text \<open>The store of the counterexample below arises from the user interface: a parent with two children, all completed by a click on the parent, then an item of depth 2 appended under the second child.\<close>

lemma lateChildStore_reachable:
  "todos (run emptyState [Change [65], KeyDown enterKey 1, KeyDown tabKey 1,
                          Change [65], KeyDown enterKey 2, Change [65], KeyDown enterKey 3,
                          Toggle [49], KeyDown tabKey 3, Change [65], KeyDown enterKey 4])
     = lateChildStore"
proof -
  have t: "toggleTodo [item 49 False 0 Normal, item 50 False 1 Normal, item 51 False 1 Normal] [49]
      = Inr [item 49 True 0 Normal, item 50 True 1 Normal, item 51 True 1 Normal]"
    by code_simp
  show ?thesis
    using t
    by (simp add: run_def emptyState_def enterKey_def tabKey_def handleKeyDown_def addTodo_def
        trim_def isWhiteSpace_def numberToString_def natDigits.simps lateChildStore_def item_def)
qed

text \<open>Claim C3 as stated fails: un-completing the leaf at index 1 makes the upward pass recompute its completed sibling at index 2, which has an incomplete child, to incomplete.\<close>

theorem untoggle_sibling_counterexample:
  "toggleTodo lateChildStore [50] =
     Inr [item 49 False 0 Normal, item 50 False 1 Normal, item 51 False 1 Normal,
          item 52 False 2 Normal] \<and>
   nat (findIndex (\<lambda>t. todo_id t = [50]) lateChildStore) = 1 \<and>
   completed (lateChildStore ! 1) \<and>
   getDirectChildren lateChildStore 1 = [] \<and>
   isSibling (map depth lateChildStore) 2 1 \<and>
   completed (lateChildStore ! 2) \<and>
   \<not> completed ([item 49 False 0 Normal, item 50 False 1 Normal, item 51 False 1 Normal,
          item 52 False 2 Normal] ! 2)"
proof -
  have "toggleTodo lateChildStore [50] =
     Inr [item 49 False 0 Normal, item 50 False 1 Normal, item 51 False 1 Normal,
          item 52 False 2 Normal]" by code_simp
  moreover have "nat (findIndex (\<lambda>t. todo_id t = [50]) lateChildStore) = 1"
    by (simp add: findIndex_def lateChildStore_def item_def)
  moreover have "getDirectChildren lateChildStore 1 = []" by code_simp
  moreover have "isSibling (map depth lateChildStore) 2 1"
    by (simp add: isSibling_def lateChildStore_def item_def)
  ultimately show ?thesis by (simp add: lateChildStore_def item_def)
qed

theorem untoggle_keeps_others_witness:
  "toggleTodo doneStore [2] =
     Inr [item 1 False 0 Normal, item 2 False 1 Normal, item 3 True 1 Normal,
          item 4 True 2 Normal] \<and>
   1 = nat (findIndex (\<lambda>t. todo_id t = [2]) doneStore) \<and>
   completed (doneStore ! 1) \<and>
   toggleDownward doneStore 1 ! 3 = doneStore ! 3 \<and>
   isSibling (map depth doneStore) 2 1 \<and> completed (doneStore ! 2) \<and>
   runCompleted doneStore 2 \<and>
   completed ([item 1 False 0 Normal, item 2 False 1 Normal, item 3 True 1 Normal,
          item 4 True 2 Normal] ! 2)"
proof -
  let ?r = "[item 1 False 0 Normal, item 2 False 1 Normal, item 3 True 1 Normal,
          item 4 True 2 Normal]"
  have h: "toggleTodo doneStore [2] = Inr ?r" by code_simp
  have k: "1 = nat (findIndex (\<lambda>t. todo_id t = [2]) doneStore)"
    by (simp add: findIndex_def doneStore_def item_def)
  have c: "completed (doneStore ! 1)" "completed (doneStore ! 2)"
    by (simp_all add: doneStore_def item_def)
  have s: "isSibling (map depth doneStore) 2 1"
    by (simp add: isSibling_def doneStore_def item_def)
  have "\<forall>j\<in>{2<..<length doneStore}. inRun (map depth doneStore) 2 j \<longrightarrow> completed (doneStore ! j)"
  proof
    fix j assume "j \<in> {2<..<length doneStore}"
    then have "j = 3" by (simp add: doneStore_def)
    then show "inRun (map depth doneStore) 2 j \<longrightarrow> completed (doneStore ! j)"
      by (simp add: doneStore_def item_def)
  qed
  then have r: "runCompleted doneStore 2" by (simp only: runCompleted_def)
  note T = untoggle_keeps_others [OF h k c(1)]
  from T have a: "toggleDownward doneStore 1 ! 3 = doneStore ! 3" by simp
  from T s c(2) r have b: "completed (?r ! 2)" by blast
  from h k c s r a b show ?thesis by blast
qed

subsection \<open>Item ids\<close>

lemma natDigits_nonempty: "natDigits n \<noteq> []"
  by (subst natDigits.simps) simp

lemma natDigits_last: "last (natDigits n) = 48 + n mod 10"
  by (subst natDigits.simps) simp

lemma natDigits_butlast: "butlast (natDigits n) = (if n < 10 then [] else natDigits (n div 10))"
  by (subst natDigits.simps) (simp add: butlast_append)

lemma natDigits_inj: "natDigits n = natDigits m \<Longrightarrow> n = m"
proof (induction n arbitrary: m rule: natDigits.induct)
  case (1 n)
  from "1.prems" have l: "n mod 10 = m mod 10"
    using natDigits_last [of n] natDigits_last [of m] by simp
  from "1.prems" have b: "butlast (natDigits n) = butlast (natDigits m)" by simp
  show ?case
  proof (cases "n < 10")
    case True
    with b have "m < 10" using natDigits_nonempty [of "m div 10"]
      by (auto simp: natDigits_butlast split: if_splits)
    with True l show ?thesis by simp
  next
    case False
    with b have m: "\<not> m < 10" using natDigits_nonempty [of "n div 10"]
      by (auto simp: natDigits_butlast split: if_splits)
    with False b have "natDigits (n div 10) = natDigits (m div 10)"
      by (simp add: natDigits_butlast)
    from "1.IH" [OF False this] have "n div 10 = m div 10" .
    with l show ?thesis by (metis div_mult_mod_eq)
  qed
qed

lemma natDigits_digits: "c \<in> set (natDigits n) \<Longrightarrow> 48 \<le> c"
proof (induction n rule: natDigits.induct)
  case (1 n)
  from "1.prems" have "c \<in> set (if n < 10 then [48 + n] else natDigits (n div 10) @ [48 + n mod 10])"
    by (subst (asm) natDigits.simps) simp
  with "1.IH" show ?case by (auto split: if_splits)
qed

lemma numberToString_inj: "numberToString a = numberToString b \<Longrightarrow> a = b"
proof -
  assume e: "numberToString a = numberToString b"
  have hd48: "48 \<le> hd (natDigits n)" for n
    using natDigits_digits [of "hd (natDigits n)" n] natDigits_nonempty [of n] by simp
  have neg: "numberToString x = 45 # natDigits (nat (- x))" if "x < 0" for x
    using that by (simp add: numberToString_def)
  have pos: "numberToString x = natDigits (nat x)" if "\<not> x < 0" for x
    using that by (simp add: numberToString_def)
  show ?thesis
  proof (cases "a < 0")
    case True
    show ?thesis
    proof (cases "b < 0")
      case bneg: True
      from e neg [OF True] neg [OF bneg] have "natDigits (nat (- a)) = natDigits (nat (- b))" by simp
      then have "nat (- a) = nat (- b)" by (rule natDigits_inj)
      with True bneg show ?thesis by simp
    next
      case False
      from e neg [OF True] pos [OF False] have "hd (natDigits (nat b)) = 45" by (metis list.sel(1))
      with hd48 [of "nat b"] show ?thesis by simp
    qed
  next
    case False
    show ?thesis
    proof (cases "b < 0")
      case True
      from e neg [OF True] pos [OF False] have "hd (natDigits (nat a)) = 45" by (metis list.sel(1))
      with hd48 [of "nat a"] show ?thesis by simp
    next
      case bpos: False
      from e pos [OF False] pos [OF bpos] have "natDigits (nat a) = natDigits (nat b)" by simp
      then have "nat a = nat b" by (rule natDigits_inj)
      with False bpos show ?thesis by simp
    qed
  qed
qed

lemma handleKeyDown_ids:
  "map todo_id (todos (handleKeyDown s e now)) =
     map todo_id (todos s) @ map numberToString (if commits s e then [now] else [])"
  by (simp add: handleKeyDown_def addTodo_def commits_def Let_def)

lemma step_ids:
  "map todo_id (todos (step s a)) =
     map todo_id (todos s) @
     map numberToString (case a of KeyDown e now \<Rightarrow> (if commits s e then [now] else []) | _ \<Rightarrow> [])"
proof (cases a)
  case (KeyDown e now)
  then show ?thesis by (simp add: handleKeyDown_ids)
next
  case (Change v)
  then show ?thesis by simp
next
  case (Toggle ident)
  show ?thesis
  proof (cases "toggleTodo (todos s) ident")
    case (Inl err)
    with Toggle show ?thesis by simp
  next
    case (Inr u)
    from toggleTodo_erase [OF Inr] have "map erase u = map erase (todos s)" .
    then have "map (todo_id \<circ> erase) u = map (todo_id \<circ> erase) (todos s)"
      by (metis map_map)
    moreover have "todo_id \<circ> erase = todo_id" by (rule ext) (simp add: erase_def)
    ultimately show ?thesis using Toggle Inr by simp
  qed
qed

text \<open>Ids are never changed and never removed: after any sequence of events the ids of the store are the ids it had, followed by the decimal forms of the clock readings at the creations, in order.\<close>

lemma run_ids:
  "map todo_id (todos (run s acts)) =
     map todo_id (todos s) @ map numberToString (creationTimes s acts)"
proof (induction acts arbitrary: s)
  case Nil
  then show ?case by (simp add: run_def)
next
  case (Cons a acts)
  have "run s (a # acts) = run (step s a) acts" by (simp add: run_def)
  with Cons.IH [of "step s a"] show ?case by (simp add: step_ids)
qed

text \<open>From the initial state the ids are pairwise distinct exactly when the clock readings at the creations are.\<close>

lemma ids_distinct_iff_clock:
  "distinct (map todo_id (todos (run emptyState acts))) = distinct (creationTimes emptyState acts)"
proof -
  have "inj_on numberToString (set (creationTimes emptyState acts))"
    by (rule inj_onI) (rule numberToString_inj)
  then show ?thesis by (simp add: run_ids emptyState_def distinct_map)
qed

text \<open>Claim C9, at the failing input. Two items created at one clock reading carry the same id, and a click on the checkbox of the second one, which looks the item up by its id, flips the first.\<close>

theorem same_clock_same_id:
  "todos (run emptyState sameClockActs) = twinStore \<and>
   \<not> distinct (map todo_id twinStore) \<and>
   todo_id (twinStore ! 1) = [49, 55, 48, 48] \<and>
   toggleTodo twinStore [49, 55, 48, 48] =
     Inr [(twinStore ! 0)\<lparr>completed := True\<rparr>, twinStore ! 1]"
proof -
  have "todos (run emptyState sameClockActs) = twinStore"
    by (simp add: run_def sameClockActs_def emptyState_def enterKey_def handleKeyDown_def
        addTodo_def trim_def isWhiteSpace_def numberToString_def natDigits.simps twinStore_def)
  moreover have "toggleTodo twinStore [49, 55, 48, 48] =
     Inr [(twinStore ! 0)\<lparr>completed := True\<rparr>, twinStore ! 1]" by code_simp
  ultimately show ?thesis by (simp add: twinStore_def)
qed

subsection \<open>The examples of the specification, run on the model\<close>

text \<open>The testable properties of the specification that name concrete stores and key presses evaluate on the model as the specification says.\<close>

lemma example_parent_completes_family:
  "toggleTodo [item 1 False 0 Normal, item 2 False 1 Normal, item 3 False 2 Normal,
               item 4 False 1 Normal] [1] =
     Inr [item 1 True 0 Normal, item 2 True 1 Normal, item 3 True 2 Normal,
          item 4 True 1 Normal]"
  by code_simp

lemma example_grandchild_uncompletes_ancestors:
  "toggleTodo [item 1 True 0 Normal, item 2 True 1 Normal, item 3 True 2 Normal,
               item 4 True 2 Normal] [3] =
     Inr [item 1 False 0 Normal, item 2 False 1 Normal, item 3 False 2 Normal,
          item 4 True 2 Normal]"
  by code_simp

lemma example_second_child_completes_parent:
  "toggleTodo familyStore [2] =
     Inr [item 1 False 0 Normal, item 2 True 1 Normal, item 3 False 1 Normal] \<and>
   toggleTodo [item 1 False 0 Normal, item 2 True 1 Normal, item 3 False 1 Normal] [3] =
     Inr [item 1 True 0 Normal, item 2 True 1 Normal, item 3 True 1 Normal]"
  by code_simp

lemma example_tab_clamps:
  "inputDepth (run emptyState [KeyDown tabKey 0, KeyDown tabKey 0, KeyDown tabKey 0]) = 2"
  by (simp add: run_def emptyState_def tabKey_def handleKeyDown_def)

lemma example_arrows_wrap:
  "inputPriority (handleKeyDown (emptyState\<lparr>inputPriority := Emergency\<rparr>)
      \<lparr>key = ''ArrowUp'', shiftKey = False, isComposing = False\<rparr> 0) = Low \<and>
   inputPriority (handleKeyDown (emptyState\<lparr>inputPriority := Low\<rparr>)
      \<lparr>key = ''ArrowDown'', shiftKey = False, isComposing = False\<rparr> 0) = Emergency"
  by (simp add: emptyState_def handleKeyDown_def priorities_def indexOf_def findIndex_def)

end
